theory Spec2Isabelle
  imports Main
begin

section \<open>Data model\<close>

text \<open>
  The two watch directions of \<^verbatim>\<open>guv.const\<close>. \<^verbatim>\<open>AbstractListener.__init__\<close> asserts
  \<^verbatim>\<open>evtype in [READ, WRITE]\<close>, so a listener never carries another value.
\<close>

datatype evtype = READ | WRITE

text \<open>
  The exception classes that the modelled code raises or passes around.
  \<^verbatim>\<open>AssertionError\<close> carries the message of the failed \<^verbatim>\<open>assert\<close>;
  \<^verbatim>\<open>RuntimeError\<close> carries the two values formatted into its message
  (\<^verbatim>\<open>'Multiple {evtype} on {fd} not supported'\<close>). \<^verbatim>\<open>Timeout\<close> is the class imported from
  \<^verbatim>\<open>guv.timeout\<close>; \<^verbatim>\<open>TimeoutError\<close> is Python's builtin of that name; \<^verbatim>\<open>UserExc\<close> stands for
  any other exception class a caller passes in or throws into a task.
\<close>

datatype exc =
    AssertionError string
  | RuntimeError evtype int
  | ValueError
  | AttributeError
  | Timeout
  | TimeoutError
  | UserExc nat

text \<open>
  Greenlets, timers and handles are Python objects; they are referred to by their
  identity, a natural number. A callable handed to the hub is one of the three that the
  modelled code builds: the bound methods \<^verbatim>\<open>g.switch\<close> and \<^verbatim>\<open>g.throw\<close> of a greenlet
  \<^verbatim>\<open>g\<close>, and the closure \<^verbatim>\<open>_timeout\<close> of \<^verbatim>\<open>trampoline\<close>, which captures the greenlet
  \<^verbatim>\<open>current\<close>.
\<close>

datatype callback = Switch nat | Throw nat | Timeout_cb nat

text \<open>
  A listener: \<^verbatim>\<open>evtype\<close>, \<^verbatim>\<open>fd\<close> and \<^verbatim>\<open>greenlet\<close> are the attributes that
  \<^verbatim>\<open>AbstractListener.__init__\<close> sets; \<^verbatim>\<open>cb\<close> and \<^verbatim>\<open>tb\<close> are the resume and throw
  continuations given to \<^verbatim>\<open>hub.add\<close>.
\<close>

record listener =
  l_evtype :: evtype
  l_fd :: int
  l_greenlet :: nat
  l_cb :: callback
  l_tb :: callback

text \<open>
  The attributes of \<^verbatim>\<open>AbstractHub.__init__\<close>. \<^verbatim>\<open>listeners\<close> is the dictionary
  \<^verbatim>\<open>{READ: {}, WRITE: {}}\<close>: both outer keys are always present, an inner dictionary maps
  a file descriptor to its value, and that value is a listener or Python's \<^verbatim>\<open>None\<close>
  (which \<^verbatim>\<open>_remove_listener\<close> stores just before deleting the key). So
  \<open>listeners h ev fd = None\<close> says that \<open>fd\<close> is not a key, \<open>Some None\<close> that the key
  holds \<^verbatim>\<open>None\<close>, and \<open>Some (Some l)\<close> that it holds the listener \<open>l\<close>.
\<close>

record hub =
  listeners :: "evtype \<Rightarrow> int \<rightharpoonup> listener option"
  greenlet :: nat
  stopping :: bool
  debug_exceptions :: bool

section \<open>The listener registry\<close>

text \<open>
  \<^verbatim>\<open>AbstractHub._add_listener\<close>. The result pairs what the call raised or returned
  with the hub as the call leaves it.
\<close>

definition add_listener :: "listener \<Rightarrow> hub \<Rightarrow> (exc + unit) \<times> hub" where
  "add_listener l h =
     (let evtype = l_evtype l;
          fd = l_fd l;
          bucket = listeners h evtype
      in if bucket fd \<noteq> None
         then (Inl (RuntimeError evtype fd), h)
         else (Inr (), h\<lparr>listeners := (listeners h)(evtype := bucket(fd \<mapsto> Some l))\<rparr>))"

text \<open>
  \<^verbatim>\<open>AbstractHub._remove_listener\<close>: the slot is first set to \<^verbatim>\<open>None\<close>, then its key is
  deleted. The assignment creates the key when it is absent, so the \<^verbatim>\<open>del\<close> that follows
  always finds it: the method has no raising path.
\<close>

definition remove_listener :: "listener \<Rightarrow> hub \<Rightarrow> hub" where
  "remove_listener l h =
     (let h1 = h\<lparr>listeners := (listeners h)(l_evtype l := (listeners h (l_evtype l))(l_fd l \<mapsto> None))\<rparr>
      in h1\<lparr>listeners := (listeners h1)(l_evtype l := (listeners h1 (l_evtype l))(l_fd l := None))\<rparr>)"

section \<open>Greenlets\<close>

text \<open>
  The \<^verbatim>\<open>greenlet\<close> library is not part of the repository; the three things the hub
  uses are modelled after the library's documented behaviour. A greenlet object has the
  attributes \<^verbatim>\<open>dead\<close> and \<^verbatim>\<open>parent\<close> (the root greenlet of a thread has no parent).
\<close>

record greenlet_obj =
  dead :: bool
  parent :: "nat option"

section \<open>Timers and the state of a thread\<close>

text \<open>
  A timer object. Modelled from the spec: \<^verbatim>\<open>schedule_call_global(seconds, cb, *args)\<close>
  returns "a cancellable timer object that fires \<^verbatim>\<open>cb(*args)\<close> after \<^verbatim>\<open>seconds\<close>", with
  the attributes "deadline, callback, cancellation flag"; the concrete timer class is not
  among the sources, only the interface \<^verbatim>\<open>AbstractTimer\<close> with its method \<^verbatim>\<open>cancel\<close>.
  The number of seconds is only stored, so its type is left open.
\<close>

record 't timer =
  t_seconds :: 't
  t_cb :: callback
  t_args :: "exc list"
  t_cancelled :: bool

text \<open>
  What one thread's program state consists of: the greenlet objects created so far
  (\<open>next_gid\<close> many, the next one gets that identity), the greenlet that is running
  (\<^verbatim>\<open>greenlet.getcurrent()\<close>), the thread's hub (\<^verbatim>\<open>get_hub()\<close>), the timer objects
  created so far, and the hub's queue of callbacks for immediate dispatch.
\<close>

record 't world =
  greenlets :: "nat \<Rightarrow> greenlet_obj"
  next_gid :: nat
  current :: nat
  hub :: hub
  timers :: "nat \<Rightarrow> 't timer"
  next_tid :: nat
  callbacks :: "(callback \<times> exc list) list"

section \<open>Operations on greenlets\<close>

text \<open>
  The library's check in the setter of \<^verbatim>\<open>parent\<close>: it walks from the new parent up
  the chain of parents and looks for the greenlet itself. The library keeps the chains free
  of cycles, so the walk passes at most as many greenlets as exist; that number is the
  bound \<open>n\<close> on the steps.
\<close>

fun in_chain :: "(nat \<Rightarrow> greenlet_obj) \<Rightarrow> nat \<Rightarrow> nat option \<Rightarrow> nat \<Rightarrow> bool" where
  "in_chain gs 0 p self = False"
| "in_chain gs (Suc n) None self = False"
| "in_chain gs (Suc n) (Some p) self = (p = self \<or> in_chain gs n (parent (gs p)) self)"

text \<open>
  The assignment \<^verbatim>\<open>g.parent = p\<close>. When \<open>g\<close> is the root greenlet of its thread (it
  has no parent) the library raises \<^verbatim>\<open>AttributeError\<close> ("cannot set the parent of a main
  greenlet"). Otherwise it raises \<^verbatim>\<open>ValueError\<close> ("cyclic parent chain") when \<open>g\<close> is \<open>p\<close>
  or one of its ancestors, and stores the parent when it is not. (Versions of the library
  before 2.0 have no case of their own for the root: it is on every chain of its thread,
  and the assignment raises \<^verbatim>\<open>ValueError\<close>. The properties of \<^verbatim>\<open>switch\<close> below are stated
  for the callers on which the versions agree.)
\<close>

definition set_parent :: "nat \<Rightarrow> nat \<Rightarrow> 't world \<Rightarrow> (exc + unit) \<times> 't world" where
  "set_parent g p w =
     (if parent (greenlets w g) = None
      then (Inl AttributeError, w)
      else if in_chain (greenlets w) (next_gid w) (Some p) g
      then (Inl ValueError, w)
      else (Inr (), w\<lparr>greenlets := (greenlets w)(g := (greenlets w g)\<lparr>parent := Some p\<rparr>)\<rparr>))"

text \<open>
  The constructor \<^verbatim>\<open>greenlet.greenlet(run, parent)\<close>: a new greenlet that has not
  started (so it is not dead); its parent is the one given, or the current greenlet when
  \<^verbatim>\<open>None\<close> is given.
\<close>

definition greenlet_new :: "nat option \<Rightarrow> 't world \<Rightarrow> nat \<times> 't world" where
  "greenlet_new p w =
     (let g = next_gid w
      in (g, w\<lparr>greenlets := (greenlets w)
                   (g := \<lparr>dead = False, parent = Some (case p of None \<Rightarrow> current w | Some q \<Rightarrow> q)\<rparr>),
               next_gid := Suc g\<rparr>))"

text \<open>
  \<^verbatim>\<open>g.switch()\<close> hands control to the greenlet \<open>g\<close>. The caller continues only when
  some other greenlet switches back to it (the call then returns the value passed) or
  throws an exception into it (the call then raises it). What the other greenlets do
  in between is the environment \<open>env\<close>: from the target and the state at the switch it
  gives how and in which state the caller is woken, or \<open>None\<close> when it never is.
\<close>

datatype wake = Resumed nat | Thrown exc

type_synonym 't env = "nat \<Rightarrow> 't world \<Rightarrow> (wake \<times> 't world) option"

definition greenlet_switch :: "'t env \<Rightarrow> nat \<Rightarrow> 't world \<Rightarrow> ((exc + nat) \<times> 't world) option" where
  "greenlet_switch env g w =
     (case env g w of
        None \<Rightarrow> None
      | Some (Resumed v, w') \<Rightarrow> Some (Inr v, w')
      | Some (Thrown e, w') \<Rightarrow> Some (Inl e, w'))"

section \<open>The hub\<close>

text \<open>
  \<^verbatim>\<open>AbstractHub.__init__\<close>: empty buckets for both directions, a new greenlet for
  \<^verbatim>\<open>self.run\<close> whose parent is the current greenlet, \<^verbatim>\<open>stopping = False\<close>,
  \<^verbatim>\<open>_debug_exceptions = True\<close>.
\<close>

definition AbstractHub_init :: "'t world \<Rightarrow> 't world" where
  "AbstractHub_init w =
     (let (g, w1) = greenlet_new None w
      in w1\<lparr>hub := \<lparr>listeners = (\<lambda>ev. Map.empty), greenlet = g,
                    stopping = False, debug_exceptions = True\<rparr>\<rparr>)"

text \<open>\<^verbatim>\<open>AbstractHub.ensure_greenlet\<close>.\<close>

definition ensure_greenlet :: "'t world \<Rightarrow> (exc + unit) \<times> 't world" where
  "ensure_greenlet w =
     (let old = greenlet (hub w)
      in if dead (greenlets w old)
         then (let (new, w1) = greenlet_new (parent (greenlets w old)) w
               in case set_parent old new w1 of
                    (Inl e, w2) \<Rightarrow> (Inl e, w2)
                  | (Inr u, w2) \<Rightarrow> (Inr (), w2\<lparr>hub := (hub w2)\<lparr>greenlet := new\<rparr>\<rparr>))
         else (Inr (), w))"

text \<open>
  \<^verbatim>\<open>AbstractHub.switch\<close>. The \<^verbatim>\<open>try\<close> around the assignment of the caller's parent
  catches \<^verbatim>\<open>ValueError\<close> only: another exception of the assignment leaves \<^verbatim>\<open>switch\<close>
  before control is handed to the hub's greenlet.
\<close>

definition switch :: "'t env \<Rightarrow> 't world \<Rightarrow> ((exc + nat) \<times> 't world) option" where
  "switch env w =
     (let cur = current w
      in if cur = greenlet (hub w)
         then Some (Inl (AssertionError ''Cannot switch to the hub from the hub''), w)
         else (case ensure_greenlet w of
                 (Inl e, w1) \<Rightarrow> Some (Inl e, w1)
               | (Inr u, w1) \<Rightarrow>
                   (case (if parent (greenlets w1 (greenlet (hub w1))) \<noteq> Some cur
                          then set_parent cur (greenlet (hub w1)) w1
                          else (Inr (), w1)) of
                      (Inl e, w2) \<Rightarrow>
                        if e = ValueError
                        then greenlet_switch env (greenlet (hub w2)) w2
                        else Some (Inl e, w2)
                    | (Inr u, w2) \<Rightarrow> greenlet_switch env (greenlet (hub w2)) w2)))"

text \<open>
  Modelled from the spec: the concrete hub's \<^verbatim>\<open>add\<close>, which \<^verbatim>\<open>AbstractHub\<close> only
  declares. "\<^verbatim>\<open>add(dir, fd, cb, throwback)\<close> \<open>\<rightarrow>\<close> Listener: register interest. [...] Fails
  with a 'multiple listeners' error if (dir, fd) is already registered." The listener is
  built as \<^verbatim>\<open>AbstractListener.__init__\<close> does (its greenlet is the current one) and
  registered with \<^verbatim>\<open>_add_listener\<close>.
\<close>

definition add :: "evtype \<Rightarrow> int \<Rightarrow> callback \<Rightarrow> callback \<Rightarrow> 't world \<Rightarrow> (exc + listener) \<times> 't world" where
  "add evtype fd cb tb w =
     (let l = \<lparr>l_evtype = evtype, l_fd = fd, l_greenlet = current w, l_cb = cb, l_tb = tb\<rparr>
      in case add_listener l (hub w) of
           (Inl e, h) \<Rightarrow> (Inl e, w\<lparr>hub := h\<rparr>)
         | (Inr u, h) \<Rightarrow> (Inr l, w\<lparr>hub := h\<rparr>))"

text \<open>
  Modelled from the spec: the concrete hub's \<^verbatim>\<open>remove\<close>, which \<^verbatim>\<open>AbstractHub\<close> only
  declares. "\<^verbatim>\<open>remove(listener)\<close>: unregister"; it unregisters with \<^verbatim>\<open>_remove_listener\<close>.
  (The name \<open>remove\<close> is taken by a constant on sets, hence \<open>remove_hub\<close>.)
\<close>

definition remove_hub :: "listener \<Rightarrow> 't world \<Rightarrow> 't world" where
  "remove_hub l w = w\<lparr>hub := remove_listener l (hub w)\<rparr>"

text \<open>
  Modelled from the spec: the concrete hub's \<^verbatim>\<open>schedule_call_global\<close>, which
  \<^verbatim>\<open>AbstractHub\<close> only declares. "Return a cancellable timer object that fires
  \<^verbatim>\<open>cb(*args)\<close> after \<^verbatim>\<open>seconds\<close> real time." The new timer is not cancelled.
\<close>

definition schedule_call_global :: "'t \<Rightarrow> callback \<Rightarrow> exc list \<Rightarrow> 't world \<Rightarrow> nat \<times> 't world" where
  "schedule_call_global seconds cb args w =
     (let t = next_tid w
      in (t, w\<lparr>timers := (timers w)
                   (t := \<lparr>t_seconds = seconds, t_cb = cb, t_args = args, t_cancelled = False\<rparr>),
               next_tid := Suc t\<rparr>))"

text \<open>
  Modelled from the spec: the timer's \<^verbatim>\<open>cancel\<close>, which \<^verbatim>\<open>AbstractTimer\<close> only declares.
  "Cancellation is idempotent. A cancelled timer must not invoke its callback
  thereafter": it sets the timer's cancellation flag.
\<close>

definition cancel :: "nat \<Rightarrow> 't world \<Rightarrow> 't world" where
  "cancel t w = w\<lparr>timers := (timers w)(t := (timers w t)\<lparr>t_cancelled := True\<rparr>)\<rparr>"

text \<open>
  Modelled from the spec: the concrete hub's \<^verbatim>\<open>schedule_call_now\<close>, which is not among
  the sources. "\<^verbatim>\<open>schedule_call_now(cb, *args)\<close>: schedule for the next loop iteration";
  "a FIFO queue for immediate-dispatch items suffices".
\<close>

definition schedule_call_now :: "callback \<Rightarrow> exc list \<Rightarrow> 't world \<Rightarrow> 't world" where
  "schedule_call_now cb args w = w\<lparr>callbacks := callbacks w @ [(cb, args)]\<rparr>"

section \<open>Trampoline\<close>

text \<open>
  The \<^verbatim>\<open>finally\<close> clause of \<^verbatim>\<open>trampoline\<close> that cancels the timer when one was
  scheduled.
\<close>

definition cancel_timer :: "nat option \<Rightarrow> 't world \<Rightarrow> 't world" where
  "cancel_timer timer w = (case timer of None \<Rightarrow> w | Some t \<Rightarrow> cancel t w)"

text \<open>
  \<^verbatim>\<open>trampoline(fd, evtype, timeout=None, timeout_exc=Timeout)\<close>. An argument that the
  caller leaves out is \<open>None\<close> here. The first assertion compares the hub object with a
  greenlet and so never fails; the second holds by the type of \<open>fd\<close>. The closure
  \<^verbatim>\<open>_timeout\<close> is \<open>Timeout_cb current\<close>. The two \<^verbatim>\<open>finally\<close> clauses run on every way out
  of their \<^verbatim>\<open>try\<close>: the inner one only after \<^verbatim>\<open>hub.add\<close> has returned.
\<close>

definition trampoline ::
  "int \<Rightarrow> evtype \<Rightarrow> 't option \<Rightarrow> exc option \<Rightarrow> 't env \<Rightarrow> 't world \<Rightarrow> ((exc + nat) \<times> 't world) option" where
  "trampoline fd evtype timeout timeout_exc env w =
     (let cur = current w;
          texc = (case timeout_exc of None \<Rightarrow> Timeout | Some e \<Rightarrow> e);
          (timer, w1) = (case timeout of
                           None \<Rightarrow> (None, w)
                         | Some s \<Rightarrow> (let (t, w') = schedule_call_global s (Timeout_cb cur) [texc] w
                                      in (Some t, w')))
      in case add evtype fd (Switch cur) (Throw cur) w1 of
           (Inl e, w2) \<Rightarrow> Some (Inl e, cancel_timer timer w2)
         | (Inr l, w2) \<Rightarrow>
             (case switch env w2 of
                None \<Rightarrow> None
              | Some (r, w3) \<Rightarrow> Some (r, cancel_timer timer (remove_hub l w3))))"

text \<open>\<^verbatim>\<open>gyield()\<close>.\<close>

definition gyield :: "'t env \<Rightarrow> 't world \<Rightarrow> ((exc + unit) \<times> 't world) option" where
  "gyield env w =
     (let cur = current w;
          w1 = schedule_call_now (Switch cur) [] w
      in case switch env w1 of
           None \<Rightarrow> None
         | Some (Inl e, w2) \<Rightarrow> Some (Inl e, w2)
         | Some (Inr v, w2) \<Rightarrow> Some (Inr (), w2))"

text \<open>
  Calling a callback with arguments, as far as it wakes a greenlet: \<^verbatim>\<open>_timeout(exc)\<close>
  is \<^verbatim>\<open>current.throw(exc)\<close>, \<^verbatim>\<open>g.throw(exc)\<close> throws \<open>exc\<close> into \<open>g\<close>, and \<^verbatim>\<open>g.switch()\<close>
  resumes \<open>g\<close> with \<^verbatim>\<open>None\<close> (the value \<open>0\<close>). Other argument lists are not used by the
  modelled code.
\<close>

fun call_cb :: "callback \<Rightarrow> exc list \<Rightarrow> (nat \<times> wake) option" where
  "call_cb (Timeout_cb g) [e] = Some (g, Thrown e)"
| "call_cb (Throw g) [e] = Some (g, Thrown e)"
| "call_cb (Switch g) [] = Some (g, Resumed 0)"
| "call_cb cb args = None"

text \<open>
  Modelled from the spec: the environment in which, while the caller waits, the hub's
  loop does nothing but let the timer \<open>t\<close> expire. A timer "fires \<^verbatim>\<open>cb(*args)\<close>", and "a
  cancelled timer must not invoke its callback"; the caller is woken when the callback
  wakes it.
\<close>

definition timer_expires :: "nat \<Rightarrow> 't env" where
  "timer_expires t g w =
     (if t_cancelled (timers w t) then None
      else case call_cb (t_cb (timers w t)) (t_args (timers w t)) of
             None \<Rightarrow> None
           | Some (g', k) \<Rightarrow> if g' = current w then Some (k, w) else None)"

section \<open>Handles of pyuv_cffi\<close>

text \<open>
  An FFI callback object made by \<^verbatim>\<open>ffi.callback\<close>. \<open>Close_cb self callback\<close> wraps the
  closure \<^verbatim>\<open>cb_wrapper\<close> of \<^verbatim>\<open>Handle.close\<close>, which captures the handle and the caller's
  callback (\<open>None\<close> when there is none); \<open>Event_cb\<close> stands for the wrappers that the
  \<^verbatim>\<open>start\<close> methods install.
\<close>

datatype ffi_callback = Close_cb nat "nat option" | Event_cb nat

text \<open>The attributes that \<^verbatim>\<open>Handle.__init__\<close> sets.\<close>

record handle =
  uv_handle :: nat
  ffi_cb :: "ffi_callback option"
  ffi_close_cb :: "ffi_callback option"
  close_called :: bool

text \<open>
  The handle objects, the module's list \<^verbatim>\<open>alive\<close>, and the calls
  \<^verbatim>\<open>libuv.uv_close(handle, cb)\<close> made so far, in order.
\<close>

record pyuv =
  handles :: "nat \<Rightarrow> handle"
  alive :: "nat list"
  uv_close_calls :: "(nat \<times> ffi_callback) list"

text \<open>\<^verbatim>\<open>Handle.close(callback=None)\<close> of the handle object \<open>self\<close>.\<close>

definition close :: "nat \<Rightarrow> nat option \<Rightarrow> pyuv \<Rightarrow> pyuv" where
  "close self callback s =
     (if close_called (handles s self) then s
      else (let cb = Close_cb self callback;
                s1 = s\<lparr>handles := (handles s)(self := (handles s self)\<lparr>ffi_close_cb := Some cb\<rparr>)\<rparr>;
                s2 = s1\<lparr>uv_close_calls := uv_close_calls s1 @ [(uv_handle (handles s1 self), cb)]\<rparr>
            in s2\<lparr>handles := (handles s2)(self := (handles s2 self)\<lparr>close_called := True\<rparr>)\<rparr>))"

section \<open>Well-formed greenlet stores\<close>

text \<open>
  What the \<^verbatim>\<open>greenlet\<close> library maintains for the greenlets that exist: a parent is
  itself a greenlet that exists, and no greenlet is its own ancestor.
\<close>

definition wf_greenlets :: "'t world \<Rightarrow> bool" where
  "wf_greenlets w =
     (\<forall>g\<in>{..<next_gid w}.
        (case parent (greenlets w g) of None \<Rightarrow> True | Some p \<Rightarrow> p < next_gid w)
      \<and> \<not> in_chain (greenlets w) (next_gid w) (parent (greenlets w g)) g)"

text \<open>
  The hub's greenlet exists and has a parent: it was made by the constructor, in
  \<^verbatim>\<open>AbstractHub.__init__\<close> or in \<^verbatim>\<open>ensure_greenlet\<close>, and only the root greenlet of a
  thread has no parent.
\<close>

definition wf_hub :: "'t world \<Rightarrow> bool" where
  "wf_hub w =
     (wf_greenlets w
    \<and> greenlet (hub w) < next_gid w
    \<and> parent (greenlets w (greenlet (hub w))) \<noteq> None)"

text \<open>
  For the proofs that these properties are kept: the greenlets that the setter's walk
  passes, in order; a store whose parents all exist; a parent that exists if there is one.
\<close>

fun path :: "(nat \<Rightarrow> greenlet_obj) \<Rightarrow> nat \<Rightarrow> nat option \<Rightarrow> nat list" where
  "path gs 0 q = []"
| "path gs (Suc k) None = []"
| "path gs (Suc k) (Some p) = p # path gs k (parent (gs p))"

definition closed :: "(nat \<Rightarrow> greenlet_obj) \<Rightarrow> nat \<Rightarrow> bool" where
  "closed gs n = (\<forall>g<n. \<forall>p. parent (gs g) = Some p \<longrightarrow> p < n)"

definition in_range :: "nat option \<Rightarrow> nat \<Rightarrow> bool" where
  "in_range q n = (case q of None \<Rightarrow> True | Some p \<Rightarrow> p < n)"

section \<open>Example states\<close>

text \<open>Two listeners for the same pair \<open>(READ, 3)\<close>, owned by different greenlets.\<close>

definition l_first :: listener where
  "l_first = \<lparr>l_evtype = READ, l_fd = 3, l_greenlet = 2, l_cb = Switch 2, l_tb = Throw 2\<rparr>"

definition l_second :: listener where
  "l_second = \<lparr>l_evtype = READ, l_fd = 3, l_greenlet = 3, l_cb = Switch 3, l_tb = Throw 3\<rparr>"

definition hub0 :: hub where
  "hub0 = \<lparr>listeners = (\<lambda>ev. Map.empty), greenlet = 1, stopping = False, debug_exceptions = True\<rparr>"

text \<open>
  A thread in which only the root greenlet \<open>0\<close> exists and runs; the field \<open>hub\<close> is
  filled in by \<open>AbstractHub_init\<close>.
\<close>

definition main_world :: "nat world" where
  "main_world =
     \<lparr>greenlets = (\<lambda>g. \<lparr>dead = False, parent = None\<rparr>), next_gid = 1, current = 0,
      hub = \<lparr>listeners = (\<lambda>ev. Map.empty), greenlet = 0, stopping = False, debug_exceptions = True\<rparr>,
      timers = (\<lambda>t. \<lparr>t_seconds = 0, t_cb = Switch 0, t_args = [], t_cancelled = True\<rparr>),
      next_tid = 0, callbacks = []\<rparr>"

text \<open>
  The root greenlet has created the hub (greenlet \<open>1\<close>) and a task (greenlet \<open>2\<close>), and
  the task is running.
\<close>

definition task_world :: "nat world" where
  "task_world = (let (g, w) = greenlet_new None (AbstractHub_init main_world) in w\<lparr>current := g\<rparr>)"

text \<open>The same, after the hub's greenlet has died.\<close>

definition dead_hub_world :: "nat world" where
  "dead_hub_world =
     task_world\<lparr>greenlets := (greenlets task_world)(1 := (greenlets task_world 1)\<lparr>dead := True\<rparr>)\<rparr>"

text \<open>The hub's own greenlet is the one running.\<close>

definition hub_running_world :: "nat world" where
  "hub_running_world = task_world\<lparr>current := 1\<rparr>"

text \<open>
  The root greenlet has created a task (greenlet \<open>1\<close>), the task has created the hub
  (greenlet \<open>2\<close>, whose parent is the task), and the root greenlet is running again.
\<close>

definition root_caller_world :: "nat world" where
  "root_caller_world =
     (let (g, w) = greenlet_new None main_world
      in (AbstractHub_init (w\<lparr>current := g\<rparr>))\<lparr>current := 0\<rparr>)"

text \<open>A handle on which \<^verbatim>\<open>close\<close> has not been called.\<close>

definition pyuv0 :: pyuv where
  "pyuv0 =
     \<lparr>handles = (\<lambda>h. \<lparr>uv_handle = h, ffi_cb = None, ffi_close_cb = None, close_called = False\<rparr>),
      alive = [0], uv_close_calls = []\<rparr>"

text \<open>The task's state once a listener for \<open>(READ, 3)\<close> is registered.\<close>

definition busy_world :: "nat world" where
  "busy_world = snd (add READ 3 (Switch 2) (Throw 2) task_world)"

text \<open>
  Environments: one that throws the exception \<open>e\<close> into the waiting caller, one that
  resumes it with the value \<open>v\<close>, both without changing the state.
\<close>

definition thrower :: "exc \<Rightarrow> nat env" where
  "thrower e g w = Some (Thrown e, w)"

definition resumer :: "nat \<Rightarrow> nat env" where
  "resumer v g w = Some (Resumed v, w)"

text \<open>
  An environment in which the hub's greenlet \<open>g\<close> dies while the caller waits, another
  greenlet's call of \<^verbatim>\<open>switch\<close> then runs \<^verbatim>\<open>ensure_greenlet\<close>, and later the caller is
  resumed with the value \<open>v\<close>.
\<close>

definition hub_dies :: "nat \<Rightarrow> nat env" where
  "hub_dies v g w =
     Some (Resumed v,
           snd (ensure_greenlet (w\<lparr>greenlets := (greenlets w)(g := (greenlets w g)\<lparr>dead := True\<rparr>)\<rparr>)))"

section \<open>Properties of the listener registry\<close>

lemma add_listener_fresh:
  "listeners h (l_evtype l) (l_fd l) = None \<Longrightarrow>
   add_listener l h =
     (Inr (), h\<lparr>listeners := (listeners h)(l_evtype l := (listeners h (l_evtype l))(l_fd l \<mapsto> Some l))\<rparr>)"
  by (simp add: add_listener_def Let_def)

lemma add_listener_present:
  "listeners h (l_evtype l) (l_fd l) \<noteq> None \<Longrightarrow>
   add_listener l h = (Inl (RuntimeError (l_evtype l) (l_fd l)), h)"
  by (simp add: add_listener_def Let_def)

lemma remove_listener_listeners:
  "listeners (remove_listener l h) =
     (listeners h)(l_evtype l := (listeners h (l_evtype l))(l_fd l := None))"
  by (simp add: remove_listener_def)

lemma remove_listener_other_fields:
  "greenlet (remove_listener l h) = greenlet h"
  "stopping (remove_listener l h) = stopping h"
  "debug_exceptions (remove_listener l h) = debug_exceptions h"
  by (simp_all add: remove_listener_def)

text \<open>
  Claim C1. When the registry already holds a listener \<open>l0\<close> for the pair
  \<open>(l_evtype l, l_fd l)\<close>, adding \<open>l\<close> raises \<^verbatim>\<open>RuntimeError\<close> at once, the hub is left
  exactly as it was, and so the registry still holds \<open>l0\<close> for that pair.
\<close>

theorem add_listener_duplicate_raises:
  assumes "listeners h (l_evtype l) (l_fd l) = Some (Some l0)"
  shows "fst (add_listener l h) = Inl (RuntimeError (l_evtype l) (l_fd l))
       \<and> snd (add_listener l h) = h
       \<and> listeners (snd (add_listener l h)) (l_evtype l) (l_fd l) = Some (Some l0)"
  using assms by (simp add: add_listener_def Let_def)

theorem add_listener_duplicate_raises_witness:
  "listeners (snd (add_listener l_first hub0)) (l_evtype l_second) (l_fd l_second) = Some (Some l_first)
 \<and> fst (add_listener l_second (snd (add_listener l_first hub0))) = Inl (RuntimeError READ 3)
 \<and> snd (add_listener l_second (snd (add_listener l_first hub0))) = snd (add_listener l_first hub0)"
proof -
  have h: "listeners (snd (add_listener l_first hub0)) (l_evtype l_second) (l_fd l_second)
             = Some (Some l_first)"
    by (simp add: add_listener_def Let_def l_first_def l_second_def hub0_def)
  from add_listener_duplicate_raises [OF h] h show ?thesis
    by (simp add: l_second_def)
qed

text \<open>
  Claim C8. Removing the same listener twice in succession leaves no entry for its pair
  and changes nothing else: the registry after the two removals is the registry before
  them with that one key deleted, and the other attributes of the hub are as before.
\<close>

theorem remove_listener_twice:
  "listeners (remove_listener l (remove_listener l h)) (l_evtype l) (l_fd l) = None
 \<and> listeners (remove_listener l (remove_listener l h)) =
     (listeners h)(l_evtype l := (listeners h (l_evtype l))(l_fd l := None))
 \<and> greenlet (remove_listener l (remove_listener l h)) = greenlet h
 \<and> stopping (remove_listener l (remove_listener l h)) = stopping h
 \<and> debug_exceptions (remove_listener l (remove_listener l h)) = debug_exceptions h"
  by (simp add: remove_listener_listeners remove_listener_other_fields)

section \<open>Properties of Handle.close\<close>

lemma close_once:
  "\<not> close_called (handles s self) \<Longrightarrow>
   close self callback s =
     s\<lparr>handles := (handles s)(self := (handles s self)
           \<lparr>ffi_close_cb := Some (Close_cb self callback), close_called := True\<rparr>),
       uv_close_calls := uv_close_calls s @ [(uv_handle (handles s self), Close_cb self callback)]\<rparr>"
  by (simp add: close_def Let_def)

lemma close_again: "close_called (handles s self) \<Longrightarrow> close self callback s = s"
  by (simp add: close_def)

lemma close_sets_flag: "close_called (handles (close self callback s) self)"
  by (simp add: close_def Let_def)

lemma close_fold_again:
  "close_called (handles s self) \<Longrightarrow> fold (close self) cbs s = s"
  by (induction cbs) (simp_all add: close_again)

text \<open>
  Claim C9. On a handle whose \<^verbatim>\<open>close\<close> has not been called, the first call sets the
  flag \<^verbatim>\<open>_close_called\<close>, installs the wrapper of its callback as \<^verbatim>\<open>_ffi_close_cb\<close> and
  makes one call of \<^verbatim>\<open>uv_close\<close> with the handle and that wrapper. A second call, with any
  callback, returns the state it was given, and so does any sequence of further calls:
  no other \<^verbatim>\<open>uv_close\<close>, no other callback, no change of the handle.
\<close>

theorem close_idempotent:
  assumes "\<not> close_called (handles s self)"
  shows "close_called (handles (close self callback s) self)
       \<and> ffi_close_cb (handles (close self callback s) self) = Some (Close_cb self callback)
       \<and> uv_close_calls (close self callback s) =
           uv_close_calls s @ [(uv_handle (handles s self), Close_cb self callback)]
       \<and> close self callback' (close self callback s) = close self callback s
       \<and> fold (close self) cbs (close self callback s) = close self callback s"
  using assms close_sets_flag [of self callback s]
  by (simp add: close_once close_again close_fold_again)

theorem close_idempotent_witness:
  "\<not> close_called (handles pyuv0 0)
 \<and> close_called (handles (close 0 (Some 7) pyuv0) 0)
 \<and> ffi_close_cb (handles (close 0 (Some 7) pyuv0) 0) = Some (Close_cb 0 (Some 7))
 \<and> uv_close_calls (close 0 (Some 7) pyuv0) = [(0, Close_cb 0 (Some 7))]
 \<and> close 0 None (close 0 (Some 7) pyuv0) = close 0 (Some 7) pyuv0
 \<and> fold (close 0) [None, Some 8] (close 0 (Some 7) pyuv0) = close 0 (Some 7) pyuv0"
proof -
  have h: "\<not> close_called (handles pyuv0 0)"
    by (simp add: pyuv0_def)
  have u: "uv_close_calls pyuv0 = []" "uv_handle (handles pyuv0 0) = 0"
    by (simp_all add: pyuv0_def)
  from close_idempotent [OF h, of "Some 7" None "[None, Some 8]"] h show ?thesis
    by (simp only: u append_Nil simp_thms)
qed

section \<open>Properties of the hub's greenlet\<close>

lemma in_chain_fresh_update:
  assumes closed: "\<forall>g<n. \<forall>p. parent (gs g) = Some p \<longrightarrow> p < n"
  shows "(case q of None \<Rightarrow> True | Some p \<Rightarrow> p < n) \<Longrightarrow>
         in_chain (gs(n := x)) k q y = in_chain gs k q y"
proof (induction k arbitrary: q)
  case 0
  show ?case by simp
next
  case (Suc k)
  show ?case
  proof (cases q)
    case None
    then show ?thesis by simp
  next
    case (Some p)
    with Suc.prems have p: "p < n" by simp
    then have same: "(gs(n := x)) p = gs p" by simp
    from closed p have "case parent (gs p) of None \<Rightarrow> True | Some p' \<Rightarrow> p' < n"
      by (auto split: option.splits)
    from Suc.IH [OF this] Some same show ?thesis by simp
  qed
qed

lemma wf_greenlets_closed:
  "wf_greenlets w \<Longrightarrow> \<forall>g<next_gid w. \<forall>p. parent (greenlets w g) = Some p \<longrightarrow> p < next_gid w"
  by (auto simp: wf_greenlets_def split: option.splits)

lemma wf_greenlets_acyclic:
  "wf_greenlets w \<Longrightarrow> g < next_gid w \<Longrightarrow>
   \<not> in_chain (greenlets w) (next_gid w) (parent (greenlets w g)) g"
  by (simp add: wf_greenlets_def)

lemma ensure_greenlet_alive:
  "\<not> dead (greenlets w (greenlet (hub w))) \<Longrightarrow> ensure_greenlet w = (Inr (), w)"
  by (simp add: ensure_greenlet_def)

lemma ensure_greenlet_dead:
  assumes wf: "wf_hub w" and d: "dead (greenlets w (greenlet (hub w)))"
  shows "ensure_greenlet w =
           (Inr (),
            w\<lparr>greenlets := (greenlets w)
                  (next_gid w := \<lparr>dead = False, parent = parent (greenlets w (greenlet (hub w)))\<rparr>,
                   greenlet (hub w) := (greenlets w (greenlet (hub w)))\<lparr>parent := Some (next_gid w)\<rparr>),
              next_gid := Suc (next_gid w),
              hub := (hub w)\<lparr>greenlet := next_gid w\<rparr>\<rparr>)"
proof -
  let ?old = "greenlet (hub w)"
  let ?n = "next_gid w"
  from wf obtain p where p: "parent (greenlets w ?old) = Some p"
    by (auto simp: wf_hub_def)
  from wf have old: "?old < ?n" and wfg: "wf_greenlets w"
    by (simp_all add: wf_hub_def)
  from wf_greenlets_closed [OF wfg] old p have pn: "p < ?n" by blast
  let ?x = "\<lparr>dead = False, parent = Some p\<rparr>"
  have "in_chain ((greenlets w)(?n := ?x)) ?n (Some p) ?old
          = in_chain (greenlets w) ?n (Some p) ?old"
    using in_chain_fresh_update [OF wf_greenlets_closed [OF wfg], of "Some p" ?x ?n ?old] pn
    by simp
  with wf_greenlets_acyclic [OF wfg old] p
  have nc: "\<not> in_chain ((greenlets w)(?n := ?x)) ?n (Some p) ?old" by simp
  from old have ne: "?n \<noteq> ?old" by simp
  show ?thesis
    using d p nc ne
    by (simp add: ensure_greenlet_def greenlet_new_def set_parent_def Let_def)
qed

lemma set_parent_raises:
  "set_parent g p w = (Inl e, w') \<Longrightarrow> (e = ValueError \<or> e = AttributeError) \<and> w' = w"
  by (auto simp: set_parent_def split: if_splits)

lemma ensure_greenlet_raises:
  "ensure_greenlet w = (Inl e, w') \<Longrightarrow> e = ValueError \<or> e = AttributeError"
  by (auto simp: ensure_greenlet_def greenlet_new_def Let_def
           split: if_splits prod.splits sum.splits dest: set_parent_raises)

lemma ensure_greenlet_current: "ensure_greenlet w = (r, w') \<Longrightarrow> current w' = current w"
  by (auto simp: ensure_greenlet_def greenlet_new_def set_parent_def Let_def
           split: if_splits prod.splits sum.splits)

lemma greenlet_switch_raises:
  "greenlet_switch env g w = Some (Inl e, w') \<Longrightarrow> env g w = Some (Thrown e, w')"
  by (auto simp: greenlet_switch_def split: option.splits wake.splits)

lemma switch_from_hub:
  "current w = greenlet (hub w) \<Longrightarrow>
   switch env w = Some (Inl (AssertionError ''Cannot switch to the hub from the hub''), w)"
  by (simp add: switch_def)

lemma ensure_greenlet_ok:
  assumes "dead (greenlets w (greenlet (hub w))) \<longrightarrow> wf_hub w"
  shows "\<exists>w1. ensure_greenlet w = (Inr (), w1) \<and> timers w1 = timers w \<and> current w1 = current w
            \<and> callbacks w1 = callbacks w
            \<and> parent (greenlets w1 (greenlet (hub w1))) = parent (greenlets w (greenlet (hub w)))
            \<and> (\<forall>g. parent (greenlets w g) \<noteq> None \<longrightarrow> parent (greenlets w1 g) \<noteq> None)"
proof (cases "dead (greenlets w (greenlet (hub w)))")
  case False
  from ensure_greenlet_alive [OF False] show ?thesis by simp
next
  case True
  with assms have wf: "wf_hub w" by simp
  then have "next_gid w \<noteq> greenlet (hub w)" "parent (greenlets w (greenlet (hub w))) \<noteq> None"
    by (auto simp: wf_hub_def)
  with ensure_greenlet_dead [OF wf True] show ?thesis by simp
qed

lemma switch_transfer:
  assumes "current w \<noteq> greenlet (hub w)" and "ensure_greenlet w = (Inr (), w1)"
      and "parent (greenlets w1 (current w)) \<noteq> None
         \<or> parent (greenlets w1 (greenlet (hub w1))) = Some (current w)"
  shows "switch env w =
           greenlet_switch env (greenlet (hub w1))
             (if parent (greenlets w1 (greenlet (hub w1))) \<noteq> Some (current w)
               \<and> \<not> in_chain (greenlets w1) (next_gid w1) (Some (greenlet (hub w1))) (current w)
              then w1\<lparr>greenlets := (greenlets w1)
                        (current w := (greenlets w1 (current w))\<lparr>parent := Some (greenlet (hub w1))\<rparr>)\<rparr>
              else w1)"
  using assms by (auto simp: switch_def set_parent_def Let_def)

lemma switch_root_raises:
  assumes "current w \<noteq> greenlet (hub w)" and "ensure_greenlet w = (Inr (), w1)"
      and "parent (greenlets w1 (current w)) = None"
      and "parent (greenlets w1 (greenlet (hub w1))) \<noteq> Some (current w)"
  shows "switch env w = Some (Inl AttributeError, w1)"
  using assms by (simp add: switch_def set_parent_def Let_def)

lemma switch_outcomes:
  assumes "current w \<noteq> greenlet (hub w)"
  shows "(\<exists>e w1. (e = ValueError \<or> e = AttributeError) \<and> switch env w = Some (Inl e, w1))
       \<or> (\<exists>g w2. switch env w = greenlet_switch env g w2)"
proof -
  obtain r w1 where eg: "ensure_greenlet w = (r, w1)" by (cases "ensure_greenlet w")
  show ?thesis
  proof (cases r)
    case (Inl e)
    with eg ensure_greenlet_raises have "e = ValueError \<or> e = AttributeError" by blast
    with assms eg Inl show ?thesis by (simp add: switch_def)
  next
    case (Inr u)
    let ?s = "if parent (greenlets w1 (greenlet (hub w1))) \<noteq> Some (current w)
              then set_parent (current w) (greenlet (hub w1)) w1 else (Inr (), w1)"
    obtain r2 w2 where sp: "?s = (r2, w2)" by (cases ?s)
    show ?thesis
    proof (cases r2)
      case (Inl e)
      with sp have "(e = ValueError \<or> e = AttributeError)"
        by (auto split: if_splits dest: set_parent_raises)
      with assms eg Inr sp Inl show ?thesis
        by (auto simp: switch_def Let_def)
    next
      case (Inr u2)
      with assms eg \<open>r = Inr u\<close> sp show ?thesis
        by (auto simp: switch_def Let_def)
    qed
  qed
qed

text \<open>
  Claim C6. When the caller of \<^verbatim>\<open>switch\<close> is the hub's own greenlet, the assertion
  fails: the call raises \<^verbatim>\<open>AssertionError\<close> and leaves the state as it was, whatever the
  environment is, so no switch is performed. When the caller is another greenlet, the
  assertion does not fail: an \<^verbatim>\<open>AssertionError\<close> that comes out of the call is one that
  the environment threw into the waiting caller.
\<close>

theorem switch_assertion:
  "(current w = greenlet (hub w) \<longrightarrow>
      switch env w = Some (Inl (AssertionError ''Cannot switch to the hub from the hub''), w))
 \<and> (current w \<noteq> greenlet (hub w) \<longrightarrow>
      (\<forall>m w'. switch env w = Some (Inl (AssertionError m), w') \<longrightarrow>
          (\<exists>g w1. env g w1 = Some (Thrown (AssertionError m), w'))))"
proof (intro conjI impI allI)
  assume "current w = greenlet (hub w)"
  then show "switch env w = Some (Inl (AssertionError ''Cannot switch to the hub from the hub''), w)"
    by (rule switch_from_hub)
next
  fix m w'
  assume ne: "current w \<noteq> greenlet (hub w)"
    and sw: "switch env w = Some (Inl (AssertionError m), w')"
  from switch_outcomes [OF ne, of env] sw
  obtain g w2 where "greenlet_switch env g w2 = Some (Inl (AssertionError m), w')" by auto
  from greenlet_switch_raises [OF this]
  show "\<exists>g w1. env g w1 = Some (Thrown (AssertionError m), w')" by blast
qed

text \<open>
  Claim C10, amended. A greenlet other than the hub's calls \<^verbatim>\<open>switch\<close> in a
  well-formed state; it has a parent, or it is the parent of the hub's greenlet. Then
  \<^verbatim>\<open>switch\<close> hands control to the hub's greenlet, in a state \<open>w2\<close> (whatever the
  environment does from there until the call returns); in \<open>w2\<close> the hub's greenlet,
  resurrected if it had died, is not dead, and the caller's parent is the hub's greenlet,
  unless the hub greenlet's parent is the caller or the caller is on the chain of parents
  that starts at the hub's greenlet (the assignment would close a cycle).
\<close>

theorem switch_reparents_caller:
  assumes ne: "current w \<noteq> greenlet (hub w)" and wf: "wf_hub w"
      and par: "parent (greenlets w (current w)) \<noteq> None
              \<or> parent (greenlets w (greenlet (hub w))) = Some (current w)"
  shows "\<exists>w2. (\<forall>env. switch env w = greenlet_switch env (greenlet (hub w2)) w2)
            \<and> \<not> dead (greenlets w2 (greenlet (hub w2)))
            \<and> (parent (greenlets w2 (current w)) = Some (greenlet (hub w2))
               \<or> parent (greenlets w2 (greenlet (hub w2))) = Some (current w)
               \<or> in_chain (greenlets w2) (next_gid w2) (Some (greenlet (hub w2))) (current w))"
proof -
  from wf have old: "greenlet (hub w) < next_gid w" by (simp add: wf_hub_def)
  from wf have "dead (greenlets w (greenlet (hub w))) \<longrightarrow> wf_hub w" by simp
  from ensure_greenlet_ok [OF this] obtain w1 where eg: "ensure_greenlet w = (Inr (), w1)"
    and hp: "parent (greenlets w1 (greenlet (hub w1))) = parent (greenlets w (greenlet (hub w)))"
    and keep: "\<forall>g. parent (greenlets w g) \<noteq> None \<longrightarrow> parent (greenlets w1 g) \<noteq> None"
    by blast
  from par hp keep
  have par1: "parent (greenlets w1 (current w)) \<noteq> None
            \<or> parent (greenlets w1 (greenlet (hub w1))) = Some (current w)"
    by auto
  have alive: "\<not> dead (greenlets w1 (greenlet (hub w1)))" and pos: "0 < next_gid w1"
  proof -
    have "\<not> dead (greenlets w1 (greenlet (hub w1))) \<and> 0 < next_gid w1"
    proof (cases "dead (greenlets w (greenlet (hub w)))")
      case False
      with ensure_greenlet_alive [OF False] eg old show ?thesis by simp
    next
      case True
      from old have "next_gid w \<noteq> greenlet (hub w)" by simp
      with ensure_greenlet_dead [OF wf True] eg show ?thesis by auto
    qed
    then show "\<not> dead (greenlets w1 (greenlet (hub w1)))" and "0 < next_gid w1" by simp_all
  qed
  let ?hg = "greenlet (hub w1)"
  let ?moved = "w1\<lparr>greenlets := (greenlets w1)
                   (current w := (greenlets w1 (current w))\<lparr>parent := Some ?hg\<rparr>)\<rparr>"
  show ?thesis
  proof (cases "parent (greenlets w1 ?hg) \<noteq> Some (current w)
              \<and> \<not> in_chain (greenlets w1) (next_gid w1) (Some ?hg) (current w)")
    case True
    from pos obtain k where "next_gid w1 = Suc k" by (cases "next_gid w1") auto
    with True have nh: "?hg \<noteq> current w" by auto
    from switch_transfer [OF ne eg par1] True
    have "\<forall>env. switch env w = greenlet_switch env (greenlet (hub ?moved)) ?moved" by simp
    moreover from alive nh have "\<not> dead (greenlets ?moved (greenlet (hub ?moved)))" by simp
    moreover have "parent (greenlets ?moved (current w)) = Some (greenlet (hub ?moved))" by simp
    ultimately show ?thesis by blast
  next
    case False
    from switch_transfer [OF ne eg par1] False
    have "\<forall>env. switch env w = greenlet_switch env (greenlet (hub w1)) w1" by auto
    with alive False show ?thesis by blast
  qed
qed

lemmas example_defs = task_world_def main_world_def dead_hub_world_def hub_running_world_def
  root_caller_world_def
  AbstractHub_init_def greenlet_new_def Let_def


text \<open>
  Claim C4. When the hub's greenlet is not dead, \<^verbatim>\<open>ensure_greenlet\<close> changes nothing.
  When it is dead, in a well-formed state, \<^verbatim>\<open>ensure_greenlet\<close> raises nothing and
  afterwards the hub's attribute \<^verbatim>\<open>greenlet\<close> is a greenlet that did not exist before; it
  is not dead, its parent is the parent the dead greenlet had, and the dead greenlet's
  parent is the new greenlet. The other greenlets, the registry and the current greenlet
  are as before.
\<close>

theorem ensure_greenlet_resurrects:
  "(\<not> dead (greenlets w (greenlet (hub w))) \<longrightarrow> ensure_greenlet w = (Inr (), w))
 \<and> (dead (greenlets w (greenlet (hub w))) \<and> wf_hub w \<longrightarrow>
      (\<exists>w'. ensure_greenlet w = (Inr (), w')
          \<and> greenlet (hub w') = next_gid w
          \<and> greenlet (hub w') \<noteq> greenlet (hub w)
          \<and> \<not> dead (greenlets w' (greenlet (hub w')))
          \<and> parent (greenlets w' (greenlet (hub w'))) = parent (greenlets w (greenlet (hub w)))
          \<and> parent (greenlets w' (greenlet (hub w))) = Some (greenlet (hub w'))
          \<and> dead (greenlets w' (greenlet (hub w)))
          \<and> (\<forall>g. g \<noteq> greenlet (hub w) \<and> g \<noteq> next_gid w \<longrightarrow> greenlets w' g = greenlets w g)
          \<and> listeners (hub w') = listeners (hub w)
          \<and> current w' = current w))"
proof (intro conjI impI)
  assume "\<not> dead (greenlets w (greenlet (hub w)))"
  then show "ensure_greenlet w = (Inr (), w)" by (rule ensure_greenlet_alive)
next
  assume a: "dead (greenlets w (greenlet (hub w))) \<and> wf_hub w"
  then have d: "dead (greenlets w (greenlet (hub w)))" and wf: "wf_hub w" by simp_all
  from wf have old: "next_gid w \<noteq> greenlet (hub w)" by (auto simp: wf_hub_def)
  let ?w' = "w\<lparr>greenlets := (greenlets w)
                  (next_gid w := \<lparr>dead = False, parent = parent (greenlets w (greenlet (hub w)))\<rparr>,
                   greenlet (hub w) := (greenlets w (greenlet (hub w)))\<lparr>parent := Some (next_gid w)\<rparr>),
              next_gid := Suc (next_gid w),
              hub := (hub w)\<lparr>greenlet := next_gid w\<rparr>\<rparr>"
  have "ensure_greenlet w = (Inr (), ?w')" by (rule ensure_greenlet_dead [OF wf d])
  moreover have "greenlet (hub ?w') = next_gid w" by simp
  moreover have "greenlet (hub ?w') \<noteq> greenlet (hub w)" using old by simp
  moreover have "\<not> dead (greenlets ?w' (greenlet (hub ?w')))" using old by simp
  moreover have "parent (greenlets ?w' (greenlet (hub ?w'))) = parent (greenlets w (greenlet (hub w)))"
    using old by simp
  moreover have "parent (greenlets ?w' (greenlet (hub w))) = Some (greenlet (hub ?w'))" by simp
  moreover have "dead (greenlets ?w' (greenlet (hub w)))" using d by simp
  moreover have "\<forall>g. g \<noteq> greenlet (hub w) \<and> g \<noteq> next_gid w \<longrightarrow> greenlets ?w' g = greenlets w g"
    by simp
  moreover have "listeners (hub ?w') = listeners (hub w)" by simp
  moreover have "current ?w' = current w" by simp
  ultimately show "\<exists>w'. ensure_greenlet w = (Inr (), w')
          \<and> greenlet (hub w') = next_gid w
          \<and> greenlet (hub w') \<noteq> greenlet (hub w)
          \<and> \<not> dead (greenlets w' (greenlet (hub w')))
          \<and> parent (greenlets w' (greenlet (hub w'))) = parent (greenlets w (greenlet (hub w)))
          \<and> parent (greenlets w' (greenlet (hub w))) = Some (greenlet (hub w'))
          \<and> dead (greenlets w' (greenlet (hub w)))
          \<and> (\<forall>g. g \<noteq> greenlet (hub w) \<and> g \<noteq> next_gid w \<longrightarrow> greenlets w' g = greenlets w g)
          \<and> listeners (hub w') = listeners (hub w)
          \<and> current w' = current w"
    by blast
qed

lemma wf_hub_task_world: "wf_hub task_world"
  by (simp add: example_defs wf_hub_def wf_greenlets_def lessThan_Suc eval_nat_numeral)

lemma wf_hub_dead_hub_world: "wf_hub dead_hub_world"
  by (simp add: example_defs wf_hub_def wf_greenlets_def lessThan_Suc eval_nat_numeral)

text \<open>
  The root greenlet calls \<^verbatim>\<open>switch\<close> on a hub that a task has built: the assignment of
  the root's parent raises \<^verbatim>\<open>AttributeError\<close>, which \<^verbatim>\<open>switch\<close> does not catch, so control
  never reaches the hub's greenlet, whatever the environment.
\<close>

lemma switch_root_caller_world:
  "wf_hub root_caller_world
 \<and> parent (greenlets root_caller_world (current root_caller_world)) = None
 \<and> switch env root_caller_world = Some (Inl AttributeError, root_caller_world)"
  by (simp add: example_defs wf_hub_def wf_greenlets_def lessThan_Suc eval_nat_numeral
        switch_def ensure_greenlet_def set_parent_def)

theorem ensure_greenlet_resurrects_witness:
  "\<not> dead (greenlets task_world (greenlet (hub task_world)))
 \<and> ensure_greenlet task_world = (Inr (), task_world)
 \<and> dead (greenlets dead_hub_world (greenlet (hub dead_hub_world))) \<and> wf_hub dead_hub_world
 \<and> (\<exists>w'. ensure_greenlet dead_hub_world = (Inr (), w')
        \<and> greenlet (hub w') = 3
        \<and> \<not> dead (greenlets w' 3)
        \<and> parent (greenlets w' 3) = Some 0
        \<and> parent (greenlets w' 1) = Some 3)"
proof -
  have a: "\<not> dead (greenlets task_world (greenlet (hub task_world)))"
    by (simp add: example_defs)
  have d: "dead (greenlets dead_hub_world (greenlet (hub dead_hub_world)))"
    by (simp add: example_defs)
  have v: "greenlet (hub dead_hub_world) = 1" "next_gid dead_hub_world = 3"
          "parent (greenlets dead_hub_world 1) = Some 0"
    by (simp_all add: example_defs)
  from ensure_greenlet_resurrects [of task_world] a
  have 1: "ensure_greenlet task_world = (Inr (), task_world)" by blast
  from ensure_greenlet_resurrects [of dead_hub_world] d wf_hub_dead_hub_world
  obtain w' where "ensure_greenlet dead_hub_world = (Inr (), w')"
    "greenlet (hub w') = next_gid dead_hub_world"
    "\<not> dead (greenlets w' (greenlet (hub w')))"
    "parent (greenlets w' (greenlet (hub w'))) = parent (greenlets dead_hub_world (greenlet (hub dead_hub_world)))"
    "parent (greenlets w' (greenlet (hub dead_hub_world))) = Some (greenlet (hub w'))"
    by blast
  with v have "ensure_greenlet dead_hub_world = (Inr (), w')
        \<and> greenlet (hub w') = 3
        \<and> \<not> dead (greenlets w' 3)
        \<and> parent (greenlets w' 3) = Some 0
        \<and> parent (greenlets w' 1) = Some 3" by simp
  with a 1 d wf_hub_dead_hub_world show ?thesis by blast
qed

theorem switch_assertion_witness:
  "current hub_running_world = greenlet (hub hub_running_world)
 \<and> switch (thrower Timeout) hub_running_world =
     Some (Inl (AssertionError ''Cannot switch to the hub from the hub''), hub_running_world)
 \<and> current task_world \<noteq> greenlet (hub task_world)
 \<and> map_option fst (switch (thrower (AssertionError ''thrown in'')) task_world) =
     Some (Inl (AssertionError ''thrown in''))
 \<and> (\<exists>g w1 w'. thrower (AssertionError ''thrown in'') g w1 =
        Some (Thrown (AssertionError ''thrown in''), w'))"
proof -
  have a: "current hub_running_world = greenlet (hub hub_running_world)"
    by (simp add: example_defs)
  have b: "current task_world \<noteq> greenlet (hub task_world)"
    by (simp add: example_defs)
  have c: "map_option fst (switch (thrower (AssertionError ''thrown in'')) task_world) =
             Some (Inl (AssertionError ''thrown in''))"
    by (simp add: example_defs switch_def ensure_greenlet_def set_parent_def greenlet_switch_def
          thrower_def eval_nat_numeral)
  then obtain w' where
    d: "switch (thrower (AssertionError ''thrown in'')) task_world =
          Some (Inl (AssertionError ''thrown in''), w')"
    by auto
  from switch_assertion [of hub_running_world "thrower Timeout"] a
  have 1: "switch (thrower Timeout) hub_running_world =
     Some (Inl (AssertionError ''Cannot switch to the hub from the hub''), hub_running_world)"
    by blast
  from switch_assertion [of task_world "thrower (AssertionError ''thrown in'')"] b d
  have 2: "\<exists>g w1. thrower (AssertionError ''thrown in'') g w1 =
        Some (Thrown (AssertionError ''thrown in''), w')"
    by blast
  from a 1 b c 2 show ?thesis by blast
qed

theorem switch_reparents_caller_witness:
  "current dead_hub_world \<noteq> greenlet (hub dead_hub_world) \<and> wf_hub dead_hub_world
 \<and> parent (greenlets dead_hub_world (current dead_hub_world)) = Some 0
 \<and> (\<exists>w2. (\<forall>env. switch env dead_hub_world = greenlet_switch env (greenlet (hub w2)) w2)
        \<and> \<not> dead (greenlets w2 (greenlet (hub w2)))
        \<and> (parent (greenlets w2 (current dead_hub_world)) = Some (greenlet (hub w2))
           \<or> parent (greenlets w2 (greenlet (hub w2))) = Some (current dead_hub_world)
           \<or> in_chain (greenlets w2) (next_gid w2) (Some (greenlet (hub w2))) (current dead_hub_world)))"
proof -
  have a: "current dead_hub_world \<noteq> greenlet (hub dead_hub_world)"
    by (simp add: example_defs)
  have b: "parent (greenlets dead_hub_world (current dead_hub_world)) = Some 0"
    by (simp add: example_defs)
  then have c: "parent (greenlets dead_hub_world (current dead_hub_world)) \<noteq> None
     \<or> parent (greenlets dead_hub_world (greenlet (hub dead_hub_world))) = Some (current dead_hub_world)"
    by simp
  from switch_reparents_caller [OF a wf_hub_dead_hub_world c] a b wf_hub_dead_hub_world
  show ?thesis by blast
qed

text \<open>
  Claim C10 as stated fails. The task of \<open>task_world\<close> (greenlet \<open>2\<close>) calls \<^verbatim>\<open>switch\<close>
  and is given the hub's greenlet \<open>1\<close> as its parent; while it waits the hub's greenlet
  dies and \<^verbatim>\<open>ensure_greenlet\<close> replaces it by greenlet \<open>3\<close>; then the task is resumed
  and the call returns. Now the task's parent is the dead greenlet \<open>1\<close>, not the hub's
  greenlet \<open>3\<close>, whose parent is not the task and whose chain of parents does not pass
  the task.
\<close>

theorem switch_reparents_caller_counterexample:
  "current task_world \<noteq> greenlet (hub task_world)
 \<and> map_option fst (switch (hub_dies 0) task_world) = Some (Inr 0)
 \<and> parent (greenlets (snd (the (switch (hub_dies 0) task_world))) (current task_world)) = Some 1
 \<and> dead (greenlets (snd (the (switch (hub_dies 0) task_world))) 1)
 \<and> greenlet (hub (snd (the (switch (hub_dies 0) task_world)))) = 3
 \<and> \<not> (parent (greenlets (snd (the (switch (hub_dies 0) task_world))) (current task_world))
          = Some (greenlet (hub (snd (the (switch (hub_dies 0) task_world)))))
      \<or> parent (greenlets (snd (the (switch (hub_dies 0) task_world)))
                  (greenlet (hub (snd (the (switch (hub_dies 0) task_world))))))
          = Some (current task_world)
      \<or> in_chain (greenlets (snd (the (switch (hub_dies 0) task_world))))
           (next_gid (snd (the (switch (hub_dies 0) task_world))))
           (Some (greenlet (hub (snd (the (switch (hub_dies 0) task_world))))))
           (current task_world))"
  by (simp add: example_defs switch_def ensure_greenlet_def set_parent_def greenlet_switch_def
        hub_dies_def eval_nat_numeral)

section \<open>Properties of trampoline\<close>

lemma cancel_timer_listeners: "hub (cancel_timer timer w) = hub w"
  by (simp add: cancel_timer_def cancel_def split: option.splits)

lemma cancel_timer_cancelled: "t_cancelled (timers (cancel_timer (Some t) w) t)"
  by (simp add: cancel_timer_def cancel_def)

lemma cancel_timer_keeps_cancelled:
  "t_cancelled (timers w t') \<Longrightarrow> t_cancelled (timers (cancel_timer timer w) t')"
  by (simp add: cancel_timer_def cancel_def split: option.splits)

lemma remove_hub_listeners:
  "listeners (hub (remove_hub l w)) (l_evtype l) (l_fd l) = None"
  by (simp add: remove_hub_def remove_listener_listeners)

lemma add_fresh:
  "listeners (hub w) evtype fd = None \<Longrightarrow>
   \<exists>l w'. add evtype fd cb tb w = (Inr l, w') \<and> l_evtype l = evtype \<and> l_fd l = fd"
  by (simp add: add_def add_listener_def Let_def)

lemma add_present:
  "listeners (hub w) evtype fd \<noteq> None \<Longrightarrow>
   add evtype fd cb tb w = (Inl (RuntimeError evtype fd), w)"
  by (simp add: add_def add_listener_def Let_def)

lemma schedule_call_global_hub:
  "schedule_call_global s cb args w = (t, w') \<Longrightarrow> hub w' = hub w \<and> t = next_tid w \<and> current w' = current w"
  by (auto simp: schedule_call_global_def Let_def)

text \<open>
  Claim C2. A call of \<^verbatim>\<open>trampoline\<close> finds no entry for \<open>(evtype, fd)\<close>, so that its
  listener is registered, and the call completes, with any result \<open>r\<close>: a value on
  readiness, the timeout exception, another exception thrown into the waiting task, or
  an exception of \<^verbatim>\<open>hub.switch\<close> itself. Then in the state \<open>w'\<close> that it leaves the
  registry has no entry for \<open>(evtype, fd)\<close>, and when a timeout was given the timer
  that the call scheduled is cancelled.
\<close>

theorem trampoline_cleans_up:
  assumes free: "listeners (hub w) evtype fd = None"
      and ret: "trampoline fd evtype timeout timeout_exc env w = Some (r, w')"
  shows "listeners (hub w') evtype fd = None
       \<and> (timeout \<noteq> None \<longrightarrow> t_cancelled (timers w' (next_tid w)))"
proof -
  obtain timer w1 where sched:
    "(case timeout of None \<Rightarrow> (None, w)
      | Some s \<Rightarrow> (let (t, w') = schedule_call_global s (Timeout_cb (current w))
                                   [case timeout_exc of None \<Rightarrow> Timeout | Some e \<Rightarrow> e] w
                   in (Some t, w'))) = (timer, w1)"
    by (cases "case timeout of None \<Rightarrow> (None, w)
      | Some s \<Rightarrow> (let (t, w') = schedule_call_global s (Timeout_cb (current w))
                                   [case timeout_exc of None \<Rightarrow> Timeout | Some e \<Rightarrow> e] w
                   in (Some t, w'))")
  then have h1: "hub w1 = hub w" and tm: "timeout \<noteq> None \<longrightarrow> timer = Some (next_tid w)"
    by (auto simp: schedule_call_global_def Let_def split: option.splits)
  from free h1 have "listeners (hub w1) evtype fd = None" by simp
  from add_fresh [OF this] obtain l w2 where
    ad: "add evtype fd (Switch (current w)) (Throw (current w)) w1 = (Inr l, w2)"
    and le: "l_evtype l = evtype" and lf: "l_fd l = fd" by blast
  from ret sched ad obtain w3 where
    w': "w' = cancel_timer timer (remove_hub l w3)"
    by (auto simp: trampoline_def Let_def split: option.splits)
  from remove_hub_listeners [of l w3] le lf
  have "listeners (hub w') evtype fd = None"
    by (simp add: w' cancel_timer_listeners)
  moreover from tm cancel_timer_cancelled
  have "timeout \<noteq> None \<longrightarrow> t_cancelled (timers w' (next_tid w))"
    by (auto simp: w')
  ultimately show ?thesis by blast
qed

text \<open>
  Claim C3. A call of \<^verbatim>\<open>trampoline\<close> for a pair that already has an entry in the
  registry raises the \<^verbatim>\<open>RuntimeError\<close> of \<^verbatim>\<open>_add_listener\<close> to its caller, in every
  environment (control never goes to the hub). It leaves the hub, and so the registry,
  as it was; the timer that the call scheduled, when a timeout was given, is cancelled,
  and every timer that was cancelled before still is.
\<close>

theorem trampoline_duplicate:
  assumes taken: "listeners (hub w) evtype fd \<noteq> None"
  shows "\<exists>w'. trampoline fd evtype timeout timeout_exc env w = Some (Inl (RuntimeError evtype fd), w')
            \<and> hub w' = hub w
            \<and> (timeout \<noteq> None \<longrightarrow> t_cancelled (timers w' (next_tid w)))
            \<and> (\<forall>t. t_cancelled (timers w t) \<longrightarrow> t_cancelled (timers w' t))"
proof (cases timeout)
  case None
  with taken show ?thesis
    by (simp add: trampoline_def add_present cancel_timer_def)
next
  case (Some s)
  with taken show ?thesis
    by (simp add: trampoline_def schedule_call_global_def Let_def add_present cancel_timer_def cancel_def)
qed

lemma switch_timer_expires:
  assumes ne: "current w \<noteq> greenlet (hub w)"
      and par: "parent (greenlets w (current w)) \<noteq> None
              \<or> parent (greenlets w (greenlet (hub w))) = Some (current w)"
      and ok: "dead (greenlets w (greenlet (hub w))) \<longrightarrow> wf_hub w"
      and live: "\<not> t_cancelled (timers w t)"
      and cb: "call_cb (t_cb (timers w t)) (t_args (timers w t)) = Some (current w, k)"
  shows "\<exists>w'. switch (timer_expires t) w =
                 Some (case k of Resumed v \<Rightarrow> Inr v | Thrown e \<Rightarrow> Inl e, w')"
proof -
  from ensure_greenlet_ok [OF ok] obtain w1 where
    eg: "ensure_greenlet w = (Inr (), w1)" and t1: "timers w1 = timers w"
    and c1: "current w1 = current w"
    and hp: "parent (greenlets w1 (greenlet (hub w1))) = parent (greenlets w (greenlet (hub w)))"
    and keep: "\<forall>g. parent (greenlets w g) \<noteq> None \<longrightarrow> parent (greenlets w1 g) \<noteq> None"
    by blast
  from par hp keep
  have par1: "parent (greenlets w1 (current w)) \<noteq> None
            \<or> parent (greenlets w1 (greenlet (hub w1))) = Some (current w)"
    by auto
  from live cb t1 c1 show ?thesis
    by (cases k)
       (simp_all add: switch_transfer [OF ne eg par1] greenlet_switch_def timer_expires_def)
qed

lemma wf_hub_cong:
  "greenlets w' = greenlets w \<Longrightarrow> next_gid w' = next_gid w \<Longrightarrow>
   greenlet (hub w') = greenlet (hub w) \<Longrightarrow> wf_hub w' = wf_hub w"
  by (simp add: wf_hub_def wf_greenlets_def cong: option.case_cong)

text \<open>
  Claim C5, amended. The default of \<^verbatim>\<open>timeout_exc\<close> is \<^verbatim>\<open>Timeout\<close>, the class of
  \<^verbatim>\<open>guv.timeout\<close>. A call with a timeout and without \<^verbatim>\<open>timeout_exc\<close> is made for a
  pair that has no entry, by a greenlet other than the hub's that has a parent or is the
  parent of the hub's greenlet (so that the call gets to wait in the hub). When its timer
  expires while it waits, the call raises \<^verbatim>\<open>Timeout\<close>.
\<close>

theorem trampoline_default_timeout_exc:
  assumes free: "listeners (hub w) evtype fd = None"
      and caller: "current w \<noteq> greenlet (hub w)"
      and par: "parent (greenlets w (current w)) \<noteq> None
              \<or> parent (greenlets w (greenlet (hub w))) = Some (current w)"
      and wf: "dead (greenlets w (greenlet (hub w))) \<longrightarrow> wf_hub w"
  shows "\<exists>w'. trampoline fd evtype (Some s) None (timer_expires (next_tid w)) w
                = Some (Inl Timeout, w')"
proof -
  let ?t = "next_tid w"
  let ?l = "\<lparr>l_evtype = evtype, l_fd = fd, l_greenlet = current w,
             l_cb = Switch (current w), l_tb = Throw (current w)\<rparr>"
  let ?w1 = "snd (schedule_call_global s (Timeout_cb (current w)) [Timeout] w)"
  let ?w2 = "?w1\<lparr>hub := snd (add_listener ?l (hub ?w1))\<rparr>"
  have ad: "add evtype fd (Switch (current w)) (Throw (current w)) ?w1 = (Inr ?l, ?w2)"
    using free by (simp add: add_def add_listener_def schedule_call_global_def Let_def)
  have g2: "greenlets ?w2 = greenlets w" "next_gid ?w2 = next_gid w"
    "greenlet (hub ?w2) = greenlet (hub w)" "current ?w2 = current w"
    using free by (simp_all add: add_listener_def schedule_call_global_def Let_def)
  have t2: "timers ?w1 ?t = \<lparr>t_seconds = s, t_cb = Timeout_cb (current w),
                               t_args = [Timeout], t_cancelled = False\<rparr>"
    by (simp add: schedule_call_global_def Let_def)
  from caller g2 have ne: "current ?w2 \<noteq> greenlet (hub ?w2)" by simp
  from par g2
  have par2: "parent (greenlets ?w2 (current ?w2)) \<noteq> None
            \<or> parent (greenlets ?w2 (greenlet (hub ?w2))) = Some (current ?w2)"
    by simp
  from wf g2 wf_hub_cong [of ?w2 w]
  have ok: "dead (greenlets ?w2 (greenlet (hub ?w2))) \<longrightarrow> wf_hub ?w2" by simp
  have live: "\<not> t_cancelled (timers ?w2 ?t)" by (simp add: t2)
  have cb: "call_cb (t_cb (timers ?w2 ?t)) (t_args (timers ?w2 ?t)) = Some (current ?w2, Thrown Timeout)"
    using g2 by (simp add: t2)
  from switch_timer_expires [OF ne par2 ok live cb] obtain w3 where
    sw: "switch (timer_expires ?t) ?w2 = Some (Inl Timeout, w3)" by auto
  have "trampoline fd evtype (Some s) None (timer_expires ?t) w =
          Some (Inl Timeout, cancel_timer (Some ?t) (remove_hub ?l w3))"
    using ad sw by (simp add: trampoline_def Let_def schedule_call_global_def split_def)
  then show ?thesis by blast
qed

lemma task_world_fields:
  "listeners (hub task_world) = (\<lambda>ev. Map.empty)" "current task_world = 2"
  "greenlet (hub task_world) = 1" "next_tid task_world = 0"
  "\<not> dead (greenlets task_world 1)"
  by (simp_all add: example_defs)

text \<open>
  Claim C5 as stated fails: the task of \<open>task_world\<close> waits for \<open>(READ, 3)\<close> with a
  timeout of 5 seconds and no \<^verbatim>\<open>timeout_exc\<close>; when the timer expires the call raises
  \<^verbatim>\<open>Timeout\<close>, not \<^verbatim>\<open>TimeoutError\<close>.
\<close>

theorem trampoline_default_timeout_exc_counterexample:
  "map_option fst (trampoline 3 READ (Some 5) None (timer_expires 0) task_world) = Some (Inl Timeout)
 \<and> map_option fst (trampoline 3 READ (Some 5) None (timer_expires 0) task_world)
     \<noteq> Some (Inl TimeoutError)"
  by (simp add: example_defs trampoline_def schedule_call_global_def add_def add_listener_def
        switch_def ensure_greenlet_def set_parent_def greenlet_switch_def timer_expires_def
        cancel_timer_def cancel_def remove_hub_def remove_listener_def eval_nat_numeral)

theorem trampoline_cleans_up_witness:
  "listeners (hub task_world) WRITE 4 = None
 \<and> map_option fst (trampoline 4 WRITE (Some 7) (Some (UserExc 1)) (resumer 0) task_world) = Some (Inr 0)
 \<and> listeners (hub (snd (the (trampoline 4 WRITE (Some 7) (Some (UserExc 1)) (resumer 0) task_world))))
      WRITE 4 = None
 \<and> t_cancelled (timers (snd (the (trampoline 4 WRITE (Some 7) (Some (UserExc 1)) (resumer 0) task_world)))
      (next_tid task_world))"
proof -
  let ?call = "trampoline 4 WRITE (Some 7) (Some (UserExc 1)) (resumer 0) task_world"
  have free: "listeners (hub task_world) WRITE 4 = None"
    by (simp add: task_world_fields)
  have r: "map_option fst ?call = Some (Inr 0)"
    by (simp add: example_defs trampoline_def schedule_call_global_def add_def add_listener_def
        switch_def ensure_greenlet_def set_parent_def greenlet_switch_def resumer_def
        cancel_timer_def cancel_def remove_hub_def remove_listener_def eval_nat_numeral)
  then obtain w' where c: "?call = Some (Inr 0, w')" by auto
  from trampoline_cleans_up [OF free c] free r c show ?thesis by simp
qed

theorem trampoline_duplicate_witness:
  "listeners (hub busy_world) READ 3 \<noteq> None
 \<and> (\<exists>w'. trampoline 3 READ (Some 5) None (resumer 0) busy_world = Some (Inl (RuntimeError READ 3), w')
        \<and> hub w' = hub busy_world
        \<and> t_cancelled (timers w' (next_tid busy_world)))"
proof -
  have taken: "listeners (hub busy_world) READ 3 \<noteq> None"
    by (simp add: busy_world_def add_def add_listener_def Let_def task_world_fields)
  from trampoline_duplicate [OF taken, of "Some 5" None "resumer 0"] taken show ?thesis
    by auto
qed

theorem trampoline_default_timeout_exc_witness:
  "listeners (hub dead_hub_world) WRITE 9 = None
 \<and> current dead_hub_world \<noteq> greenlet (hub dead_hub_world)
 \<and> parent (greenlets dead_hub_world (current dead_hub_world)) = Some 0
 \<and> dead (greenlets dead_hub_world (greenlet (hub dead_hub_world)))
 \<and> wf_hub dead_hub_world
 \<and> (\<exists>w'. trampoline 9 WRITE (Some 2) None (timer_expires (next_tid dead_hub_world)) dead_hub_world
            = Some (Inl Timeout, w'))"
proof -
  have a: "listeners (hub dead_hub_world) WRITE 9 = None"
    and b: "current dead_hub_world \<noteq> greenlet (hub dead_hub_world)"
    and c: "parent (greenlets dead_hub_world (current dead_hub_world)) = Some 0"
    and d: "dead (greenlets dead_hub_world (greenlet (hub dead_hub_world)))"
    by (simp_all add: example_defs)
  from c have c': "parent (greenlets dead_hub_world (current dead_hub_world)) \<noteq> None
     \<or> parent (greenlets dead_hub_world (greenlet (hub dead_hub_world))) = Some (current dead_hub_world)"
    by simp
  from wf_hub_dead_hub_world
  have e: "dead (greenlets dead_hub_world (greenlet (hub dead_hub_world))) \<longrightarrow> wf_hub dead_hub_world"
    by simp
  from trampoline_default_timeout_exc [OF a b c' e, of 2] a b c d wf_hub_dead_hub_world
  show ?thesis by blast
qed

section \<open>Properties of gyield\<close>

text \<open>
  What \<^verbatim>\<open>gyield\<close> does before control reaches the hub's greenlet: the caller's
  \<^verbatim>\<open>switch\<close> is appended to the queue for immediate dispatch, behind the callbacks
  already queued, and no timer is created.
\<close>

lemma gyield_enqueues:
  assumes ne: "current w \<noteq> greenlet (hub w)"
      and par: "parent (greenlets w (current w)) \<noteq> None
              \<or> parent (greenlets w (greenlet (hub w))) = Some (current w)"
      and ok: "dead (greenlets w (greenlet (hub w))) \<longrightarrow> wf_hub w"
  shows "\<exists>w2. (\<forall>env. gyield env w =
                  (case greenlet_switch env (greenlet (hub w2)) w2 of
                     None \<Rightarrow> None
                   | Some (Inl e, w3) \<Rightarrow> Some (Inl e, w3)
                   | Some (Inr v, w3) \<Rightarrow> Some (Inr (), w3)))
            \<and> callbacks w2 = callbacks w @ [(Switch (current w), [])]
            \<and> timers w2 = timers w"
proof -
  let ?w1 = "schedule_call_now (Switch (current w)) [] w"
  have g1: "greenlets ?w1 = greenlets w" "next_gid ?w1 = next_gid w"
    "greenlet (hub ?w1) = greenlet (hub w)" "current ?w1 = current w"
    "timers ?w1 = timers w" "callbacks ?w1 = callbacks w @ [(Switch (current w), [])]"
    by (simp_all add: schedule_call_now_def)
  from ne g1 have ne1: "current ?w1 \<noteq> greenlet (hub ?w1)" by simp
  from ok g1 wf_hub_cong [of ?w1 w]
  have "dead (greenlets ?w1 (greenlet (hub ?w1))) \<longrightarrow> wf_hub ?w1" by simp
  from ensure_greenlet_ok [OF this] obtain w1' where
    eg: "ensure_greenlet ?w1 = (Inr (), w1')" and t: "timers w1' = timers ?w1"
    and c: "callbacks w1' = callbacks ?w1"
    and hp: "parent (greenlets w1' (greenlet (hub w1'))) = parent (greenlets ?w1 (greenlet (hub ?w1)))"
    and keep: "\<forall>g. parent (greenlets ?w1 g) \<noteq> None \<longrightarrow> parent (greenlets w1' g) \<noteq> None"
    by blast
  from par g1 hp keep
  have par1: "parent (greenlets w1' (current ?w1)) \<noteq> None
            \<or> parent (greenlets w1' (greenlet (hub w1'))) = Some (current ?w1)"
    by auto
  let ?hg = "greenlet (hub w1')"
  let ?moved = "w1'\<lparr>greenlets := (greenlets w1')
                   (current ?w1 := (greenlets w1' (current ?w1))\<lparr>parent := Some ?hg\<rparr>)\<rparr>"
  let ?w2 = "if parent (greenlets w1' ?hg) \<noteq> Some (current ?w1)
               \<and> \<not> in_chain (greenlets w1') (next_gid w1') (Some ?hg) (current ?w1)
             then ?moved else w1'"
  have hg: "greenlet (hub ?w2) = ?hg" by simp
  have "\<forall>env. gyield env w =
          (case greenlet_switch env (greenlet (hub ?w2)) ?w2 of
             None \<Rightarrow> None
           | Some (Inl e, w3) \<Rightarrow> Some (Inl e, w3)
           | Some (Inr v, w3) \<Rightarrow> Some (Inr (), w3))"
    unfolding hg by (simp add: gyield_def Let_def switch_transfer [OF ne1 eg par1])
  moreover have "callbacks ?w2 = callbacks w @ [(Switch (current w), [])]"
    using c g1 by simp
  moreover have "timers ?w2 = timers w" using t g1 by simp
  ultimately show ?thesis by blast
qed

section \<open>Well-formedness is kept\<close>

text \<open>
  The walk of \<open>in_chain\<close> over a well-formed store of \<open>n\<close> greenlets passes each
  greenlet at most once, so \<open>n\<close> steps are enough: more steps find nothing more.
\<close>

lemma in_chain_path: "in_chain gs k q y = (y \<in> set (path gs k q))"
  by (induction gs k q y rule: in_chain.induct) auto

lemma take_path: "take j (path gs k q) = path gs (min j k) q"
proof (induction gs k q arbitrary: j rule: path.induct)
  case (1 gs q)
  show ?case by simp
next
  case (2 gs k)
  show ?case by (cases j) simp_all
next
  case (3 gs k p)
  show ?case by (cases j) (simp_all add: 3)
qed

lemma path_mono: "j \<le> k \<Longrightarrow> set (path gs j q) \<subseteq> set (path gs k q)"
proof -
  assume "j \<le> k"
  then have "path gs j q = take j (path gs k q)" by (simp add: take_path min_def)
  then show ?thesis by (simp add: set_take_subset)
qed

lemma length_path: "length (path gs k q) \<le> k"
  by (induction gs k q rule: path.induct) auto

lemma path_range:
  "closed gs n \<Longrightarrow> in_range q n \<Longrightarrow> set (path gs k q) \<subseteq> {..<n}"
proof (induction gs k q rule: path.induct)
  case (3 gs k p)
  then have p: "p < n" by (simp add: in_range_def)
  with 3 have "in_range (parent (gs p)) n"
    by (auto simp: closed_def in_range_def split: option.splits)
  with 3 p show ?case by simp
qed simp_all

lemma path_distinct:
  assumes cl: "closed gs n"
      and ac: "\<forall>g<n. g \<notin> set (path gs n (parent (gs g)))"
  shows "in_range q n \<Longrightarrow> distinct (path gs k q)"
proof (induction k arbitrary: q)
  case 0
  show ?case by simp
next
  case (Suc k)
  show ?case
  proof (cases q)
    case None
    then show ?thesis by simp
  next
    case (Some p)
    with Suc.prems have p: "p < n" by (simp add: in_range_def)
    with cl have r: "in_range (parent (gs p)) n"
      by (auto simp: closed_def in_range_def split: option.splits)
    let ?L = "path gs k (parent (gs p))"
    from Suc.IH [OF r] have d: "distinct ?L" .
    from path_range [OF cl r] have sub: "set ?L \<subseteq> {..<n}" .
    from d sub have len: "length ?L \<le> n"
      by (metis card_lessThan card_mono distinct_card finite_lessThan)
    have "p \<notin> set ?L"
    proof
      assume "p \<in> set ?L"
      have "?L = take n ?L" using len by simp
      also have "\<dots> = path gs (min n k) (parent (gs p))" by (rule take_path)
      finally have "set ?L \<subseteq> set (path gs n (parent (gs p)))"
        using path_mono [of "min n k" n gs "parent (gs p)"] by simp
      with \<open>p \<in> set ?L\<close> ac p show False by blast
    qed
    with d Some show ?thesis by simp
  qed
qed

lemma path_adequate:
  assumes cl: "closed gs n"
      and ac: "\<forall>g<n. g \<notin> set (path gs n (parent (gs g)))"
      and r: "in_range q n" and k: "n \<le> k"
  shows "path gs k q = path gs n q"
proof -
  from path_distinct [OF cl ac r] have d: "distinct (path gs k q)" .
  from path_range [OF cl r] have "set (path gs k q) \<subseteq> {..<n}" .
  with d have "length (path gs k q) \<le> n"
    by (metis card_lessThan card_mono distinct_card finite_lessThan)
  then have "path gs k q = take n (path gs k q)" by simp
  also have "\<dots> = path gs (min n k) q" by (rule take_path)
  finally show ?thesis using k by (simp add: min_def)
qed

lemma wf_greenlets_path:
  "wf_greenlets w =
     (closed (greenlets w) (next_gid w)
    \<and> (\<forall>g<next_gid w. g \<notin> set (path (greenlets w) (next_gid w) (parent (greenlets w g)))))"
proof -
  have "(case q of None \<Rightarrow> True | Some p \<Rightarrow> p < n) = (\<forall>p. q = Some p \<longrightarrow> p < n)"
    for q :: "nat option" and n
    by (cases q) simp_all
  then show ?thesis
    by (auto simp: wf_greenlets_def closed_def in_chain_path)
qed

lemma path_fresh_update:
  "closed gs n \<Longrightarrow> in_range q n \<Longrightarrow> path (gs(n := x)) k q = path gs k q"
proof (induction gs k q rule: path.induct)
  case (3 gs k p)
  then have p: "p < n" by (simp add: in_range_def)
  with 3 have "in_range (parent (gs p)) n"
    by (auto simp: closed_def in_range_def split: option.splits)
  with 3 p show ?case by simp
qed simp_all

lemma path_update_avoid:
  "g \<notin> set (path gs k q) \<Longrightarrow> path (gs(g := x)) k q = path gs k q"
  by (induction gs k q rule: path.induct) auto

lemma path_trans:
  "x \<in> set (path gs j q) \<Longrightarrow> y \<in> set (path gs k (parent (gs x))) \<Longrightarrow>
   y \<in> set (path gs (j + k) q)"
proof (induction gs j q rule: path.induct)
  case (3 gs j z)
  show ?case
  proof (cases "x = z")
    case True
    with 3 have "y \<in> set (path gs k (parent (gs z)))" by simp
    with path_mono [of k "j + k" gs "parent (gs z)"]
    have "y \<in> set (path gs (j + k) (parent (gs z)))" by auto
    then show ?thesis by simp
  next
    case False
    with 3 have "x \<in> set (path gs j (parent (gs z)))" by simp
    from "3.IH" [OF this "3.prems"(2)] show ?thesis by simp
  qed
qed simp_all

lemma path_reparent_subset:
  assumes av: "\<forall>k. g \<notin> set (path gs k (Some p))"
  shows "set (path (gs(g := (gs g)\<lparr>parent := Some p\<rparr>)) k q)
           \<subseteq> set (path gs k q) \<union> set (path gs k (Some p))"
proof (induction k arbitrary: q)
  case 0
  show ?case by simp
next
  case (Suc k)
  let ?gs' = "gs(g := (gs g)\<lparr>parent := Some p\<rparr>)"
  show ?case
  proof (cases q)
    case None
    then show ?thesis by simp
  next
    case (Some y)
    show ?thesis
    proof (cases "y = g")
      case True
      from av have "path ?gs' k (Some p) = path gs k (Some p)"
        by (simp add: path_update_avoid)
      then have e: "set (path ?gs' (Suc k) q) = insert g (set (path gs k (Some p)))"
        using Some True by simp
      have m: "set (path gs k (Some p)) \<subseteq> set (path gs (Suc k) (Some p))"
        by (rule path_mono) simp
      have h: "g \<in> set (path gs (Suc k) q)"
        using Some True by simp
      show ?thesis unfolding e using m h by blast
    next
      case False
      then have e: "set (path ?gs' (Suc k) q) = insert y (set (path ?gs' k (parent (gs y))))"
        using Some by simp
      have f: "set (path gs (Suc k) q) = insert y (set (path gs k (parent (gs y))))"
        using Some by simp
      have m: "set (path gs k (Some p)) \<subseteq> set (path gs (Suc k) (Some p))"
        by (rule path_mono) simp
      show ?thesis unfolding e f using m Suc.IH [of "parent (gs y)"] by blast
    qed
  qed
qed

lemma greenlet_new_wf:
  assumes wf: "wf_greenlets w"
      and r: "case p of None \<Rightarrow> current w < next_gid w | Some q \<Rightarrow> q < next_gid w"
  shows "wf_greenlets (snd (greenlet_new p w))"
proof -
  let ?n = "next_gid w"
  let ?gs = "greenlets w"
  let ?q = "case p of None \<Rightarrow> current w | Some q \<Rightarrow> q"
  let ?gs' = "?gs(?n := \<lparr>dead = False, parent = Some ?q\<rparr>)"
  from wf have cl: "closed ?gs ?n"
    and ac: "\<forall>g<?n. g \<notin> set (path ?gs ?n (parent (?gs g)))"
    by (simp_all add: wf_greenlets_path)
  from r have q: "?q < ?n" by (simp split: option.splits)
  have cl': "closed ?gs' (Suc ?n)"
    using cl q by (auto simp: closed_def less_Suc_eq)
  have ac': "g \<notin> set (path ?gs' (Suc ?n) (parent (?gs' g)))" if g: "g < Suc ?n" for g
  proof (cases "g = ?n")
    case True
    from q have rq: "in_range (Some ?q) ?n" by (simp add: in_range_def)
    have "path ?gs' (Suc ?n) (Some ?q) = path ?gs (Suc ?n) (Some ?q)"
      by (rule path_fresh_update [OF cl rq])
    moreover have "set (path ?gs (Suc ?n) (Some ?q)) \<subseteq> {..<?n}"
      by (rule path_range [OF cl rq])
    ultimately have a: "?n \<notin> set (path ?gs' (Suc ?n) (Some ?q))"
      by (metis lessThan_iff less_irrefl subsetD)
    have b: "parent (?gs' ?n) = Some ?q" by simp
    show ?thesis unfolding True b by (rule a)
  next
    case False
    with g have gn: "g < ?n" by simp
    with cl have rg: "in_range (parent (?gs g)) ?n"
      by (auto simp: closed_def in_range_def split: option.splits)
    from gn have "parent (?gs' g) = parent (?gs g)" by simp
    moreover from path_fresh_update [OF cl rg]
    have "path ?gs' (Suc ?n) (parent (?gs g)) = path ?gs (Suc ?n) (parent (?gs g))" .
    moreover from path_adequate [OF cl ac rg, of "Suc ?n"]
    have "path ?gs (Suc ?n) (parent (?gs g)) = path ?gs ?n (parent (?gs g))" by simp
    ultimately show ?thesis using ac gn by simp
  qed
  from cl' ac' show ?thesis
    by (simp add: wf_greenlets_path greenlet_new_def Let_def)
qed

lemma set_parent_wf:
  assumes wf: "wf_greenlets w" and g: "g < next_gid w" and p: "p < next_gid w"
  shows "wf_greenlets (snd (set_parent g p w))"
proof (cases "parent (greenlets w g) = None \<or> in_chain (greenlets w) (next_gid w) (Some p) g")
  case True
  with wf show ?thesis by (auto simp: set_parent_def)
next
  case False
  let ?n = "next_gid w"
  let ?gs = "greenlets w"
  let ?gs' = "?gs(g := (?gs g)\<lparr>parent := Some p\<rparr>)"
  from wf have cl: "closed ?gs ?n"
    and ac: "\<forall>g<?n. g \<notin> set (path ?gs ?n (parent (?gs g)))"
    by (simp_all add: wf_greenlets_path)
  from p have rp: "in_range (Some p) ?n" by (simp add: in_range_def)
  have full: "set (path ?gs k q) \<subseteq> set (path ?gs ?n q)" if "in_range q ?n" for k q
  proof (cases "k \<le> ?n")
    case True
    then show ?thesis by (rule path_mono)
  next
    case False
    then have "?n \<le> k" by simp
    from path_adequate [OF cl ac that this] show ?thesis by simp
  qed
  from False have chk: "g \<notin> set (path ?gs ?n (Some p))" by (simp add: in_chain_path)
  with full [OF rp] have av: "\<forall>k. g \<notin> set (path ?gs k (Some p))" by blast
  have cl': "closed ?gs' ?n"
    using cl p by (auto simp: closed_def)
  have ac': "x \<notin> set (path ?gs' ?n (parent (?gs' x)))" if x: "x < ?n" for x
  proof (cases "x = g")
    case True
    with av show ?thesis by (simp add: path_update_avoid)
  next
    case False
    from x cl have rx: "in_range (parent (?gs x)) ?n"
      by (auto simp: closed_def in_range_def split: option.splits)
    from False have px: "parent (?gs' x) = parent (?gs x)" by simp
    show ?thesis
    proof
      assume "x \<in> set (path ?gs' ?n (parent (?gs' x)))"
      with px have in': "x \<in> set (path ?gs' ?n (parent (?gs x)))" by simp
      from ac x have notin: "x \<notin> set (path ?gs ?n (parent (?gs x)))" by simp
      have gin: "g \<in> set (path ?gs ?n (parent (?gs x)))"
      proof (rule ccontr)
        assume "g \<notin> set (path ?gs ?n (parent (?gs x)))"
        then have "path ?gs' ?n (parent (?gs x)) = path ?gs ?n (parent (?gs x))"
          by (rule path_update_avoid)
        with in' notin show False by simp
      qed
      from in' path_reparent_subset [OF av, of ?n "parent (?gs x)"] notin
      have "x \<in> set (path ?gs ?n (Some p))" by blast
      from path_trans [OF this gin] full [OF rp, of "?n + ?n"] chk
      show False by blast
    qed
  qed
  from False have "snd (set_parent g p w) = w\<lparr>greenlets := ?gs'\<rparr>"
    by (auto simp: set_parent_def)
  with cl' ac' show ?thesis
    by (simp add: wf_greenlets_path)
qed

text \<open>
  The constructor and the parent setter keep the store well-formed, and so
  \<^verbatim>\<open>AbstractHub.__init__\<close> establishes \<open>wf_hub\<close>, and \<^verbatim>\<open>ensure_greenlet\<close> and \<^verbatim>\<open>switch\<close>
  keep it.
\<close>

lemma wf_greenlets_cong:
  "greenlets w' = greenlets w \<Longrightarrow> next_gid w' = next_gid w \<Longrightarrow> wf_greenlets w' = wf_greenlets w"
  by (simp add: wf_greenlets_def cong: option.case_cong)

lemma AbstractHub_init_wf:
  assumes wf: "wf_greenlets w" and c: "current w < next_gid w"
  shows "wf_hub (AbstractHub_init w)"
proof -
  let ?w1 = "snd (greenlet_new None w)"
  from c have "case None of None \<Rightarrow> current w < next_gid w | Some q \<Rightarrow> q < next_gid w" by simp
  from greenlet_new_wf [OF wf this] have "wf_greenlets ?w1" .
  moreover have "greenlets (AbstractHub_init w) = greenlets ?w1"
    "next_gid (AbstractHub_init w) = next_gid ?w1"
    by (simp_all add: AbstractHub_init_def greenlet_new_def Let_def)
  ultimately have "wf_greenlets (AbstractHub_init w)"
    using wf_greenlets_cong [of "AbstractHub_init w" ?w1] by simp
  then show ?thesis
    by (simp add: wf_hub_def AbstractHub_init_def greenlet_new_def Let_def)
qed

lemma ensure_greenlet_wf:
  assumes wf: "wf_hub w"
  shows "wf_hub (snd (ensure_greenlet w))"
proof (cases "dead (greenlets w (greenlet (hub w)))")
  case False
  with wf show ?thesis by (simp add: ensure_greenlet_alive)
next
  case True
  let ?old = "greenlet (hub w)"
  let ?n = "next_gid w"
  let ?w1 = "snd (greenlet_new (parent (greenlets w ?old)) w)"
  let ?w2 = "snd (set_parent ?old ?n ?w1)"
  from wf have wfg: "wf_greenlets w" and old: "?old < ?n"
    and par: "parent (greenlets w ?old) \<noteq> None"
    by (simp_all add: wf_hub_def)
  from par obtain p where p: "parent (greenlets w ?old) = Some p" by auto
  from wf_greenlets_closed [OF wfg] old p have "p < ?n" by blast
  with p have "case parent (greenlets w ?old) of None \<Rightarrow> current w < ?n | Some q \<Rightarrow> q < ?n"
    by simp
  from greenlet_new_wf [OF wfg this] have wf1: "wf_greenlets ?w1" .
  have n1: "next_gid ?w1 = Suc ?n" by (simp add: greenlet_new_def Let_def)
  from old n1 have "?old < next_gid ?w1" "?n < next_gid ?w1" by simp_all
  from set_parent_wf [OF wf1 this] have wf2: "wf_greenlets ?w2" .
  let ?w' = "snd (ensure_greenlet w)"
  from ensure_greenlet_dead [OF wf True]
  have e: "?w' = w\<lparr>greenlets := (greenlets w)
                  (?n := \<lparr>dead = False, parent = parent (greenlets w ?old)\<rparr>,
                   ?old := (greenlets w ?old)\<lparr>parent := Some ?n\<rparr>),
              next_gid := Suc ?n,
              hub := (hub w)\<lparr>greenlet := ?n\<rparr>\<rparr>"
    by simp
  have chk: "\<not> in_chain (greenlets ?w1) (next_gid ?w1) (Some ?n) ?old"
  proof
    assume "in_chain (greenlets ?w1) (next_gid ?w1) (Some ?n) ?old"
    with True p old have "fst (ensure_greenlet w) = Inl ValueError"
      by (simp add: ensure_greenlet_def set_parent_def greenlet_new_def Let_def)
    with ensure_greenlet_dead [OF wf True] show False by simp
  qed
  with old have "greenlets ?w2 = greenlets ?w'" "next_gid ?w2 = next_gid ?w'"
    by (simp_all add: e set_parent_def greenlet_new_def Let_def p)
  with wf2 wf_greenlets_cong [of ?w' ?w2] have "wf_greenlets ?w'" by simp
  moreover have "greenlet (hub ?w') < next_gid ?w'" by (simp add: e)
  moreover have "parent (greenlets ?w' (greenlet (hub ?w'))) \<noteq> None"
    using old par by (simp add: e)
  ultimately show ?thesis by (simp add: wf_hub_def)
qed

lemma ensure_greenlet_next_gid: "next_gid w \<le> next_gid (snd (ensure_greenlet w))"
  by (simp add: ensure_greenlet_def greenlet_new_def set_parent_def Let_def)

lemma switch_transfer_wf:
  assumes ne: "current w \<noteq> greenlet (hub w)" and wf: "wf_hub w"
      and c: "current w < next_gid w"
      and par: "parent (greenlets w (current w)) \<noteq> None
              \<or> parent (greenlets w (greenlet (hub w))) = Some (current w)"
  shows "\<exists>w2. (\<forall>env. switch env w = greenlet_switch env (greenlet (hub w2)) w2) \<and> wf_hub w2"
proof -
  let ?w1 = "snd (ensure_greenlet w)"
  let ?hg = "greenlet (hub ?w1)"
  from wf have "dead (greenlets w (greenlet (hub w))) \<longrightarrow> wf_hub w" by simp
  from ensure_greenlet_ok [OF this] have eg: "ensure_greenlet w = (Inr (), ?w1)"
    and hp: "parent (greenlets ?w1 ?hg) = parent (greenlets w (greenlet (hub w)))"
    and keep: "\<forall>g. parent (greenlets w g) \<noteq> None \<longrightarrow> parent (greenlets ?w1 g) \<noteq> None"
    by auto
  from par hp keep
  have par1: "parent (greenlets ?w1 (current w)) \<noteq> None
            \<or> parent (greenlets ?w1 ?hg) = Some (current w)"
    by auto
  from ensure_greenlet_wf [OF wf] have wf1: "wf_hub ?w1" .
  then have wfg1: "wf_greenlets ?w1" and hg: "?hg < next_gid ?w1"
    and hpar: "parent (greenlets ?w1 ?hg) \<noteq> None"
    by (simp_all add: wf_hub_def)
  from c ensure_greenlet_next_gid [of w] have c1: "current w < next_gid ?w1" by simp
  let ?moved = "?w1\<lparr>greenlets := (greenlets ?w1)
                   (current w := (greenlets ?w1 (current w))\<lparr>parent := Some ?hg\<rparr>)\<rparr>"
  show ?thesis
  proof (cases "parent (greenlets ?w1 ?hg) \<noteq> Some (current w)
              \<and> \<not> in_chain (greenlets ?w1) (next_gid ?w1) (Some ?hg) (current w)")
    case False
    from switch_transfer [OF ne eg par1] False
    have "\<forall>env. switch env w = greenlet_switch env (greenlet (hub ?w1)) ?w1" by auto
    with wf1 show ?thesis by blast
  next
    case True
    from switch_transfer [OF ne eg par1] True
    have sw: "\<forall>env. switch env w = greenlet_switch env (greenlet (hub ?moved)) ?moved" by simp
    from True par1 have "snd (set_parent (current w) ?hg ?w1) = ?moved"
      by (auto simp: set_parent_def)
    with set_parent_wf [OF wfg1 c1 hg] have "wf_greenlets ?moved" by simp
    with hg hpar have "wf_hub ?moved" by (simp add: wf_hub_def)
    with sw show ?thesis by blast
  qed
qed

end
